theory Spec2Isabelle
  imports Main "HOL-Library.List_Lexorder"
begin

section \<open>Configuration and directions\<close>

text \<open>Grid cells and direction vectors are Python tuples of two unbounded integers.\<close>

type_synonym coord = "int \<times> int"

definition GRID_SIZE :: int where
  "GRID_SIZE = 20"

definition UP :: coord where
  "UP = (0, -1)"

definition DOWN :: coord where
  "DOWN = (0, 1)"

definition LEFT :: coord where
  "LEFT = (-1, 0)"

definition RIGHT :: coord where
  "RIGHT = (1, 0)"

datatype py_error = IndexError

section \<open>The Snake class\<close>

text \<open>The fields of \<open>Snake\<close> that carry state; the two colour fields are constants
  of the renderer. The field \<open>length\<close> is named \<open>length_snake\<close>.\<close>

record Snake =
  length_snake :: int
  positions :: "coord list"
  direction :: coord
  score :: int

text \<open>\<open>self.positions[0]\<close> raises IndexError on an empty list.\<close>

definition get_head_position :: "Snake \<Rightarrow> py_error + coord" where
  "get_head_position s = (case positions s of [] \<Rightarrow> Inl IndexError | p # _ \<Rightarrow> Inr p)"

definition turn :: "coord \<Rightarrow> Snake \<Rightarrow> Snake" where
  "turn point s =
     (if length_snake s > 1 \<and> (fst point * -1, snd point * -1) = direction s
      then s
      else s\<lparr>direction := point\<rparr>)"

text \<open>\<open>move\<close> returns the collision flag together with the snake after the call.\<close>

definition move :: "Snake \<Rightarrow> py_error + (bool \<times> Snake)" where
  "move s =
     (case get_head_position s of
        Inl e \<Rightarrow> Inl e
      | Inr cur \<Rightarrow>
          (case direction s of (x, y) \<Rightarrow>
             let new_head = ((fst cur + x) mod GRID_SIZE, (snd cur + y) mod GRID_SIZE) in
             if length (positions s) > 2 \<and> new_head \<in> set (drop 2 (positions s))
             then Inr (True, s)
             else
               let inserted = new_head # positions s in
               if int (length inserted) > length_snake s
               then Inr (False, s\<lparr>positions := butlast inserted\<rparr>)
               else Inr (False, s\<lparr>positions := inserted\<rparr>)))"

definition grow :: "Snake \<Rightarrow> Snake" where
  "grow s = s\<lparr>length_snake := length_snake s + 1, score := score s + 1\<rparr>"

section \<open>Python's random module\<close>

text \<open>The generator is an arbitrary infinite tape of naturals; every call of
  \<open>random.randint\<close> or \<open>random.choice\<close> consumes one cell of it. Every outcome
  the library can produce is the outcome of some tape.\<close>

type_synonym rng = "nat \<Rightarrow> nat"

definition randint :: "int \<Rightarrow> int \<Rightarrow> rng \<Rightarrow> int \<times> rng" where
  "randint a b g = (a + int (g 0) mod (b - a + 1), \<lambda>n. g (Suc n))"

definition choice :: "'a list \<Rightarrow> rng \<Rightarrow> py_error + ('a \<times> rng)" where
  "choice xs g =
     (if xs = [] then Inl IndexError
      else Inr (xs ! (g 0 mod length xs), \<lambda>n. g (Suc n)))"

section \<open>Placement by rejection sampling\<close>

text \<open>The \<open>while True\<close> loop of \<open>get_random_position\<close> need not terminate:
  the value \<open>None\<close> is the run that never returns. The optional argument
  \<open>food_pos\<close> is an \<open>option\<close>.\<close>

partial_function (option) get_random_position ::
  "coord list \<Rightarrow> coord list \<Rightarrow> coord option \<Rightarrow> rng \<Rightarrow> (coord \<times> rng) option" where
  "get_random_position snake_body obstacles food_pos g =
     (case randint 0 (GRID_SIZE - 1) g of (px, g1) \<Rightarrow>
        (case randint 0 (GRID_SIZE - 1) g1 of (py, g2) \<Rightarrow>
           if (px, py) \<notin> set snake_body \<and> (px, py) \<notin> set obstacles
              \<and> (food_pos = None \<or> Some (px, py) \<noteq> food_pos)
           then Some ((px, py), g2)
           else get_random_position snake_body obstacles food_pos g2))"

definition reset :: "rng \<Rightarrow> py_error + (Snake \<times> rng)" where
  "reset g =
     (case choice [UP, DOWN, LEFT, RIGHT] g of
        Inl e \<Rightarrow> Inl e
      | Inr (d, g') \<Rightarrow>
          Inr (\<lparr>length_snake = 1,
                positions = [(GRID_SIZE div 2, GRID_SIZE div 2)],
                direction = d,
                score = 0\<rparr>, g'))"

text \<open>The states of a \<open>Snake\<close> object: those that a sequence of calls of its
  methods produces from a fresh object.\<close>

inductive reachable :: "Snake \<Rightarrow> bool" where
  reach_reset: "reset g = Inr (s, g') \<Longrightarrow> reachable s"
| reach_turn: "reachable s \<Longrightarrow> reachable (turn d s)"
| reach_move: "reachable s \<Longrightarrow> move s = Inr (c, s') \<Longrightarrow> reachable s'"
| reach_grow: "reachable s \<Longrightarrow> reachable (grow s)"

section \<open>The Food class\<close>

record Food =
  position :: coord

definition Food_init :: "coord list \<Rightarrow> coord list \<Rightarrow> rng \<Rightarrow> (Food \<times> rng) option" where
  "Food_init snake_body obstacles g =
     (case get_random_position snake_body obstacles None g of
        None \<Rightarrow> None
      | Some (pos, g') \<Rightarrow> Some (\<lparr>position = pos\<rparr>, g'))"

definition randomize_position ::
  "Food \<Rightarrow> coord list \<Rightarrow> coord list \<Rightarrow> rng \<Rightarrow> (Food \<times> rng) option" where
  "randomize_position f snake_body obstacles g =
     (case get_random_position snake_body obstacles (Some (position f)) g of
        None \<Rightarrow> None
      | Some (pos, g') \<Rightarrow> Some (f\<lparr>position := pos\<rparr>, g'))"

section \<open>The Obstacles class\<close>

record Obstacles =
  positions_obstacles :: "coord list"
  num_obstacles :: int

text \<open>The \<open>for _ in range(self.num_obstacles)\<close> loop of \<open>generate_obstacles\<close>.\<close>

fun place_obstacles ::
  "nat \<Rightarrow> coord list \<Rightarrow> coord list \<Rightarrow> rng \<Rightarrow> (coord list \<times> rng) option" where
  "place_obstacles 0 forbidden placed g = Some (placed, g)"
| "place_obstacles (Suc n) forbidden placed g =
     (case get_random_position forbidden placed None g of
        None \<Rightarrow> None
      | Some (pos, g') \<Rightarrow> place_obstacles n forbidden (placed @ [pos]) g')"

text \<open>The safe spawn area is a Python set turned into a list; only membership in it
  is ever tested, so its order is irrelevant.\<close>

definition generate_obstacles ::
  "Obstacles \<Rightarrow> coord list \<Rightarrow> rng \<Rightarrow> (py_error + (Obstacles \<times> rng)) option" where
  "generate_obstacles ob snake_body g =
     (case snake_body of
        [] \<Rightarrow> Some (Inl IndexError)
      | head # _ \<Rightarrow>
          let safe_spawn_area_for_snake =
                concat (map (\<lambda>dx. map (\<lambda>dy. (fst head + dx, snd head + dy)) [-2..2]) [-2..2])
          in
          (case place_obstacles (nat (num_obstacles ob))
                  (snake_body @ safe_spawn_area_for_snake) [] g of
             None \<Rightarrow> None
           | Some (ps, g') \<Rightarrow> Some (Inr (ob\<lparr>positions_obstacles := ps\<rparr>, g'))))"

section \<open>Breadth-first search\<close>

text \<open>The body of the \<open>for dx, dy in [UP, DOWN, LEFT, RIGHT]\<close> loop, acting on the
  queue and the visited set.\<close>

definition bfs_visit ::
  "coord list \<Rightarrow> coord list \<Rightarrow> coord list \<Rightarrow> coord
     \<Rightarrow> coord list list \<times> coord set \<Rightarrow> coord list list \<times> coord set" where
  "bfs_visit snake_body obstacles path d qv =
     (case qv of (queue, visited) \<Rightarrow>
        (case d of (dx, dy) \<Rightarrow>
           let current_head = last path;
               next_x = fst current_head + dx;
               next_y = snd current_head + dy
           in
           if \<not> (0 \<le> next_x \<and> next_x < GRID_SIZE \<and> 0 \<le> next_y \<and> next_y < GRID_SIZE)
           then (queue, visited)
           else if (next_x, next_y) \<in> visited \<or> (next_x, next_y) \<in> set obstacles
                   \<or> (next_x, next_y) \<in> set (butlast snake_body)
           then (queue, visited)
           else (queue @ [path @ [(next_x, next_y)]], insert (next_x, next_y) visited)))"

text \<open>The \<open>while queue\<close> loop. \<open>path[-1]\<close> raises IndexError on an empty path.\<close>

function bfs_loop ::
  "coord \<Rightarrow> coord list \<Rightarrow> coord list \<Rightarrow> coord list list \<Rightarrow> coord set
     \<Rightarrow> py_error + coord list" where
  "bfs_loop target_pos snake_body obstacles queue visited =
     (case queue of
        [] \<Rightarrow> Inr []
      | path # rest \<Rightarrow>
          if path = [] then Inl IndexError
          else if last path = target_pos then Inr (drop 1 path)
          else
            (case fold (bfs_visit snake_body obstacles path) [UP, DOWN, LEFT, RIGHT] (rest, visited) of
               (queue', visited') \<Rightarrow> bfs_loop target_pos snake_body obstacles queue' visited'))"
  by pat_completeness auto
termination
proof (relation "measure (\<lambda>(t, b, ob, queue, visited).
         5 * card ({0..<GRID_SIZE} \<times> {0..<GRID_SIZE} - visited) + length queue)")
  show "wf (measure (\<lambda>(t, b, ob, queue, visited).
         5 * card ({0..<GRID_SIZE} \<times> {0..<GRID_SIZE} - visited) + length queue))"
    by simp
next
  fix target_pos :: coord and snake_body obstacles :: "coord list"
    and queue :: "coord list list" and visited :: "coord set"
    and path rest queue' visited'
  assume q: "queue = path # rest"
    and "path \<noteq> []" and "last path \<noteq> target_pos"
    and r: "(queue', visited') =
              fold (bfs_visit snake_body obstacles path) [UP, DOWN, LEFT, RIGHT] (rest, visited)"
  let ?G = "{0..<GRID_SIZE} \<times> {0..<GRID_SIZE} :: coord set"
  let ?m = "\<lambda>qv :: coord list list \<times> coord set. 5 * card (?G - snd qv) + length (fst qv)"
  have step: "?m (bfs_visit snake_body obstacles path d qv) \<le> ?m qv" for d qv
  proof -
    obtain qu vi where qv: "qv = (qu, vi)" by (cases qv)
    obtain dx dy where d: "d = (dx, dy)" by (cases d)
    have fin: "finite (?G - vi)" by simp
    show ?thesis
    proof (cases "bfs_visit snake_body obstacles path d qv = qv")
      case True
      then show ?thesis by simp
    next
      case False
      define c where "c = (fst (last path) + dx, snd (last path) + dy)"
      from False have new: "bfs_visit snake_body obstacles path d qv = (qu @ [path @ [c]], insert c vi)"
        and cG: "c \<in> ?G" and cv: "c \<notin> vi"
        by (auto simp: bfs_visit_def qv d c_def Let_def split: if_splits)
      have "?G - insert c vi = (?G - vi) - {c}" by auto
      moreover have "c \<in> ?G - vi" using cG cv by simp
      ultimately have "card (?G - insert c vi) = card (?G - vi) - 1" and "card (?G - vi) > 0"
        using fin by (auto simp: card_gt_0_iff)
      then show ?thesis unfolding new by (simp add: qv)
    qed
  qed
  have steps: "?m (fold (bfs_visit snake_body obstacles path) ds qv) \<le> ?m qv" for ds qv
  proof (induction ds arbitrary: qv)
    case Nil
    show ?case by simp
  next
    case (Cons d ds)
    have "?m (fold (bfs_visit snake_body obstacles path) ds (bfs_visit snake_body obstacles path d qv))
            \<le> ?m (bfs_visit snake_body obstacles path d qv)"
      by (rule Cons.IH)
    also have "\<dots> \<le> ?m qv" by (rule step)
    finally show ?case by simp
  qed
  have "?m (queue', visited') \<le> ?m (rest, visited)"
    unfolding r by (rule steps)
  then show "((target_pos, snake_body, obstacles, queue', visited'),
              (target_pos, snake_body, obstacles, queue, visited))
        \<in> measure (\<lambda>(t, b, ob, queue, visited).
             5 * card ({0..<GRID_SIZE} \<times> {0..<GRID_SIZE} - visited) + length queue)"
    using q by simp
qed

declare bfs_loop.simps [simp del]

definition bfs_pathfinding ::
  "coord \<Rightarrow> coord \<Rightarrow> coord list \<Rightarrow> coord list \<Rightarrow> py_error + coord list" where
  "bfs_pathfinding start_pos target_pos snake_body obstacles =
     bfs_loop target_pos snake_body obstacles [[start_pos]] {start_pos}"

section \<open>The game loop\<close>

text \<open>The local variables of \<open>game_loop\<close> that one iteration of its
  \<open>while True\<close> loop reads and writes. Drawing and the clock are left out.\<close>

record game =
  snake :: Snake
  obstacles :: Obstacles
  food :: Food
  game_over :: bool
  autopilot_on :: bool
  autopilot_path :: "coord list"

datatype key = K_r | K_UP | K_DOWN | K_LEFT | K_RIGHT | K_a | K_ESCAPE | K_other

datatype event = QUIT | KEYDOWN key | OTHER_EVENT

text \<open>How a piece of the loop ends: it goes on with a value, it raises, or it leaves
  \<open>game_loop\<close> after \<open>pygame.quit()\<close>. A piece that never returns is
  \<open>None\<close>.\<close>

datatype 'a outcome = Returned 'a | Raised py_error | Exited

definition reset_game_state :: "game \<Rightarrow> rng \<Rightarrow> (game \<times> rng) outcome option" where
  "reset_game_state gs g =
     (case reset g of
        Inl e \<Rightarrow> Some (Raised e)
      | Inr (s, g1) \<Rightarrow>
          (case generate_obstacles (obstacles gs) (positions s) g1 of
             None \<Rightarrow> None
           | Some (Inl e) \<Rightarrow> Some (Raised e)
           | Some (Inr (ob, g2)) \<Rightarrow>
               (case randomize_position (food gs) (positions s) (positions_obstacles ob) g2 of
                  None \<Rightarrow> None
                | Some (f, g3) \<Rightarrow>
                    Some (Returned
                      (gs\<lparr>snake := s, obstacles := ob, food := f,
                          game_over := False, autopilot_path := []\<rparr>, g3)))))"

text \<open>The body of \<open>for event in pygame.event.get()\<close>.\<close>

definition handle_event :: "event \<Rightarrow> game \<Rightarrow> rng \<Rightarrow> (game \<times> rng) outcome option" where
  "handle_event ev gs g =
     (case ev of
        QUIT \<Rightarrow> Some Exited
      | OTHER_EVENT \<Rightarrow> Some (Returned (gs, g))
      | KEYDOWN k \<Rightarrow>
          if game_over gs then
            (if k = K_r then reset_game_state gs g else Some (Returned (gs, g)))
          else
            let gs1 =
                  (if \<not> autopilot_on gs then
                     (if k = K_UP then gs\<lparr>snake := turn UP (snake gs)\<rparr>
                      else if k = K_DOWN then gs\<lparr>snake := turn DOWN (snake gs)\<rparr>
                      else if k = K_LEFT then gs\<lparr>snake := turn LEFT (snake gs)\<rparr>
                      else if k = K_RIGHT then gs\<lparr>snake := turn RIGHT (snake gs)\<rparr>
                      else gs)
                   else gs);
                gs2 =
                  (if k = K_a
                   then gs1\<lparr>autopilot_on := \<not> autopilot_on gs1, autopilot_path := []\<rparr>
                   else gs1)
            in if k = K_ESCAPE then Some Exited else Some (Returned (gs2, g)))"

fun handle_events :: "event list \<Rightarrow> game \<Rightarrow> rng \<Rightarrow> (game \<times> rng) outcome option" where
  "handle_events [] gs g = Some (Returned (gs, g))"
| "handle_events (ev # evs) gs g =
     (case handle_event ev gs g of
        Some (Returned (gs', g')) \<Rightarrow> handle_events evs gs' g'
      | r \<Rightarrow> r)"

text \<open>The body of the loop over the four neighbour moves in the survival branch: it
  extends \<open>possible_moves\<close> or leaves it as it is (\<open>continue\<close>).\<close>

definition consider_move :: "Snake \<Rightarrow> coord list \<Rightarrow> coord \<Rightarrow> coord \<Rightarrow> coord list \<Rightarrow> coord list" where
  "consider_move s obstacle_positions head d possible_moves =
     (case d of (dx_safe, dy_safe) \<Rightarrow>
        let next_safe_pos =
              ((fst head + dx_safe) mod GRID_SIZE, (snd head + dy_safe) mod GRID_SIZE)
        in
        if next_safe_pos \<notin> set (positions s) \<and> next_safe_pos \<notin> set obstacle_positions
        then
          if length_snake s > 1
             \<and> (dx_safe, dy_safe) = (fst (direction s) * -1, snd (direction s) * -1)
             \<and> length possible_moves > 1
          then possible_moves
          else possible_moves @ [(dx_safe, dy_safe)]
        else possible_moves)"

text \<open>The survival branch (no path to the food): the snake after the call of
  \<open>turn\<close>, if any.\<close>

definition safe_move :: "Snake \<Rightarrow> coord list \<Rightarrow> rng \<Rightarrow> py_error + (Snake \<times> rng)" where
  "safe_move s obstacle_positions g =
     (case get_head_position s of
        Inl e \<Rightarrow> Inl e
      | Inr head \<Rightarrow>
          let possible_moves =
                fold (consider_move s obstacle_positions head) [UP, DOWN, LEFT, RIGHT] []
          in
          if possible_moves \<noteq> [] then
            (if direction s \<in> set possible_moves then Inr (turn (direction s) s, g)
             else
               (case choice possible_moves g of
                  Inl e \<Rightarrow> Inl e
                | Inr (d, g') \<Rightarrow> Inr (turn d s, g')))
          else Inr (s, g))"

text \<open>\<open>if not autopilot_path: ...\<close>: plan a path, or make one safe step.\<close>

definition autopilot_plan :: "game \<Rightarrow> rng \<Rightarrow> py_error + (game \<times> rng)" where
  "autopilot_plan gs g =
     (if autopilot_path gs = [] then
        let body_to_avoid_for_bfs =
              (if length_snake (snake gs) > 1 then butlast (positions (snake gs))
               else positions (snake gs))
        in
        (case get_head_position (snake gs) of
           Inl e \<Rightarrow> Inl e
         | Inr head \<Rightarrow>
             (case bfs_pathfinding head (position (food gs)) body_to_avoid_for_bfs
                     (positions_obstacles (obstacles gs)) of
                Inl e \<Rightarrow> Inl e
              | Inr path_to_food \<Rightarrow>
                  if path_to_food \<noteq> [] then Inr (gs\<lparr>autopilot_path := path_to_food\<rparr>, g)
                  else
                    (case safe_move (snake gs) (positions_obstacles (obstacles gs)) g of
                       Inl e \<Rightarrow> Inl e
                     | Inr (s', g') \<Rightarrow> Inr (gs\<lparr>snake := s', autopilot_path := []\<rparr>, g'))))
      else Inr (gs, g))"

text \<open>\<open>if autopilot_path: ...\<close>: pop the next cell of the path and turn towards it.\<close>

definition autopilot_follow :: "game \<Rightarrow> py_error + game" where
  "autopilot_follow gs =
     (case autopilot_path gs of
        [] \<Rightarrow> Inr gs
      | next_move_pos # remaining \<Rightarrow>
          (case get_head_position (snake gs) of
             Inl e \<Rightarrow> Inl e
           | Inr head_pos \<Rightarrow>
               let dx = fst next_move_pos - fst head_pos;
                   dy = snd next_move_pos - snd head_pos;
                   dx' = (if dx > 1 then -1 else if dx < -1 then 1 else dx);
                   dy' = (if dy > 1 then -1 else if dy < -1 then 1 else dy)
               in Inr (gs\<lparr>snake := turn (dx', dy') (snake gs), autopilot_path := remaining\<rparr>)))"

text \<open>\<open>if not game_over: ...\<close>: the update of one iteration.\<close>

definition update :: "game \<Rightarrow> rng \<Rightarrow> (game \<times> rng) outcome option" where
  "update gs g =
     (if \<not> game_over gs then
        (case (if autopilot_on gs then
                 (case autopilot_plan gs g of
                    Inl e \<Rightarrow> Inl e
                  | Inr (gs1, g1) \<Rightarrow>
                      (case autopilot_follow gs1 of
                         Inl e \<Rightarrow> Inl e
                       | Inr gs2 \<Rightarrow> Inr (gs2, g1)))
               else Inr (gs, g)) of
           Inl e \<Rightarrow> Some (Raised e)
         | Inr (gs2, g2) \<Rightarrow>
             (case move (snake gs2) of
                Inl e \<Rightarrow> Some (Raised e)
              | Inr (collision_with_self, s3) \<Rightarrow>
                  (case get_head_position s3 of
                     Inl e \<Rightarrow> Some (Raised e)
                   | Inr h \<Rightarrow>
                       let gs3 = gs2\<lparr>snake := s3\<rparr>;
                           gs4 = (if h \<in> set (positions_obstacles (obstacles gs3))
                                  then gs3\<lparr>game_over := True\<rparr> else gs3);
                           gs5 = (if collision_with_self
                                  then gs4\<lparr>game_over := True\<rparr> else gs4)
                       in
                       if h = position (food gs5) then
                         let s6 = grow (snake gs5) in
                         (case randomize_position (food gs5) (positions s6)
                                 (positions_obstacles (obstacles gs5)) g2 of
                            None \<Rightarrow> None
                          | Some (f, g3) \<Rightarrow>
                              Some (Returned
                                (gs5\<lparr>snake := s6, food := f, autopilot_path := []\<rparr>, g3)))
                       else Some (Returned (gs5, g2)))))
      else Some (Returned (gs, g)))"

text \<open>One iteration of \<open>while True\<close>: the pending events, then the update.\<close>

definition tick :: "event list \<Rightarrow> game \<Rightarrow> rng \<Rightarrow> (game \<times> rng) outcome option" where
  "tick events gs g =
     (case handle_events events gs g of
        Some (Returned (gs', g')) \<Rightarrow> update gs' g'
      | r \<Rightarrow> r)"

section \<open>A snake that turns at most once per move\<close>

text \<open>The states of a snake that is driven as the game loop drives it between two
  collisions, with at most one call of \<open>turn\<close> before each \<open>move\<close>.\<close>

inductive paced :: "Snake \<Rightarrow> bool" where
  paced_reset: "reset g = Inr (s, g') \<Longrightarrow> paced s"
| paced_tick: "paced s \<Longrightarrow> d \<in> set [UP, DOWN, LEFT, RIGHT]
      \<Longrightarrow> move (turn d s) = Inr (False, s') \<Longrightarrow> paced s'"
| paced_move: "paced s \<Longrightarrow> move s = Inr (False, s') \<Longrightarrow> paced s'"
| paced_grow: "paced s \<Longrightarrow> paced (grow s)"

text \<open>The cell that \<open>move\<close> computes from the head and the heading.\<close>

definition wrap_add :: "coord \<Rightarrow> coord \<Rightarrow> coord" where
  "wrap_add c d = ((fst c + fst d) mod GRID_SIZE, (snd c + snd d) mod GRID_SIZE)"

definition on_grid :: "coord \<Rightarrow> bool" where
  "on_grid c \<longleftrightarrow> 0 \<le> fst c \<and> fst c < GRID_SIZE \<and> 0 \<le> snd c \<and> snd c < GRID_SIZE"

text \<open>What holds after every \<open>move\<close> of such a snake: in particular the head is one
  wrapped step of the heading away from the cell behind it.\<close>

definition paced_inv :: "Snake \<Rightarrow> bool" where
  "paced_inv s \<longleftrightarrow>
     positions s \<noteq> [] \<and> distinct (positions s)
     \<and> direction s \<in> set [UP, DOWN, LEFT, RIGHT]
     \<and> int (length (positions s)) \<le> length_snake s
     \<and> (\<forall>c \<in> set (positions s). on_grid c)
     \<and> (\<forall>h n rest. positions s = h # n # rest \<longrightarrow> h = wrap_add n (direction s))"

text \<open>What holds when such a snake is about to move: the next head is not the cell
  behind the head.\<close>

definition ready :: "Snake \<Rightarrow> bool" where
  "ready s \<longleftrightarrow>
     positions s \<noteq> [] \<and> distinct (positions s)
     \<and> direction s \<in> set [UP, DOWN, LEFT, RIGHT]
     \<and> int (length (positions s)) \<le> length_snake s
     \<and> (\<forall>c \<in> set (positions s). on_grid c)
     \<and> (\<forall>h n rest. positions s = h # n # rest \<longrightarrow> wrap_add h (direction s) \<noteq> n)"

section \<open>Paths on the grid\<close>

text \<open>The test that \<open>bfs_pathfinding\<close> applies to a neighbour cell besides
  \<open>not in visited\<close>: both coordinates in \<open>range(GRID_SIZE)\<close>, not in
  \<open>obstacles\<close> and not in \<open>snake_body[:-1]\<close>. The slice is the function's own: the
  last element of the list that the caller passes as \<open>snake_body\<close> passes this test.\<close>

definition free_cell :: "coord list \<Rightarrow> coord list \<Rightarrow> coord \<Rightarrow> bool" where
  "free_cell snake_body obs c \<longleftrightarrow>
     0 \<le> fst c \<and> fst c < GRID_SIZE \<and> 0 \<le> snd c \<and> snd c < GRID_SIZE
     \<and> c \<notin> set obs \<and> c \<notin> set (butlast snake_body)"

text \<open>One step to a 4-neighbour, in plain integer arithmetic (no wrap-around).\<close>

definition grid_step :: "coord \<Rightarrow> coord \<Rightarrow> bool" where
  "grid_step a c \<longleftrightarrow>
     c \<in> set (map (\<lambda>d. (fst a + fst d, snd a + snd d)) [UP, DOWN, LEFT, RIGHT])"

text \<open>\<open>grid_path snake_body obs a cs\<close>: the cells \<open>cs\<close> are a walk that leaves
  \<open>a\<close> (which is not listed) through cells that pass this test.\<close>

fun grid_path :: "coord list \<Rightarrow> coord list \<Rightarrow> coord \<Rightarrow> coord list \<Rightarrow> bool" where
  "grid_path snake_body obs a [] = True"
| "grid_path snake_body obs a (c # cs) =
     (grid_step a c \<and> free_cell snake_body obs c \<and> grid_path snake_body obs c cs)"

text \<open>The cells that a walk of at most \<open>n\<close> steps reaches.\<close>

definition reach :: "coord list \<Rightarrow> coord list \<Rightarrow> coord \<Rightarrow> nat \<Rightarrow> coord \<Rightarrow> bool" where
  "reach snake_body obs start n c \<longleftrightarrow>
     (\<exists>w. grid_path snake_body obs start w \<and> length w \<le> n \<and> last (start # w) = c)"

text \<open>The invariant of the \<open>while queue\<close> loop. The queue is \<open>A @ B\<close>: walks
  of \<open>n\<close> steps followed by walks of \<open>n + 1\<close> steps, each ending in a different
  visited cell; every cell within \<open>n\<close> steps is visited; a visited cell that no queued
  walk ends in has been expanded (it is not the target and its free neighbours are
  visited), and this is so for every cell within fewer than \<open>n\<close> steps.\<close>

definition bfs_inv ::
  "coord list \<Rightarrow> coord list \<Rightarrow> coord \<Rightarrow> coord \<Rightarrow> nat
     \<Rightarrow> coord list list \<Rightarrow> coord list list \<Rightarrow> coord set \<Rightarrow> bool" where
  "bfs_inv snake_body obs start target n A B visited \<longleftrightarrow>
     (\<forall>p \<in> set A. \<exists>w. p = start # w \<and> grid_path snake_body obs start w \<and> length w = n)
     \<and> (\<forall>p \<in> set B. \<exists>w. p = start # w \<and> grid_path snake_body obs start w
            \<and> length w = Suc n)
     \<and> (\<forall>p \<in> set (A @ B). distinct p \<and> set p \<subseteq> visited)
     \<and> distinct (map last (A @ B))
     \<and> (\<forall>c. reach snake_body obs start n c \<longrightarrow> c \<in> visited)
     \<and> (\<forall>p \<in> set B. \<not> reach snake_body obs start n (last p))
     \<and> (\<forall>c \<in> visited. c \<notin> last ` set (A @ B) \<longrightarrow>
            c \<noteq> target
            \<and> (\<forall>c'. grid_step c c' \<and> free_cell snake_body obs c' \<longrightarrow> c' \<in> visited))
     \<and> (\<forall>k < n. \<forall>c. reach snake_body obs start k c \<longrightarrow> c \<notin> last ` set (A @ B))"

text \<open>What the loop delivers in terms of these walks: a shortest one to the target
  when one exists, the empty list otherwise.\<close>

definition bfs_answer :: "coord list \<Rightarrow> coord list \<Rightarrow> coord \<Rightarrow> coord \<Rightarrow> coord list \<Rightarrow> bool" where
  "bfs_answer snake_body obs start target path \<longleftrightarrow>
     (if \<exists>w. grid_path snake_body obs start w \<and> last (start # w) = target
      then grid_path snake_body obs start path \<and> distinct (start # path)
           \<and> last (start # path) = target
           \<and> (\<forall>w. grid_path snake_body obs start w \<and> last (start # w) = target
                  \<longrightarrow> length path \<le> length w)
      else path = [])"

text \<open>The place of a direction in the order UP, DOWN, LEFT, RIGHT.\<close>

definition direction_rank :: "coord \<Rightarrow> nat" where
  "direction_rank d = (if d = UP then 0 else if d = DOWN then 1 else if d = LEFT then 2 else 3)"

text \<open>The directions of the steps of a walk that leaves \<open>a\<close>, as their places in
  that order. Lists of such places are compared lexicographically.\<close>

fun moves :: "coord \<Rightarrow> coord list \<Rightarrow> nat list" where
  "moves a [] = []"
| "moves a (c # cs) = direction_rank (fst c - fst a, snd c - snd a) # moves c cs"

text \<open>The order of the queue \<open>A @ B\<close> of the \<open>while queue\<close> loop: both parts are
  strictly increasing in the directions of their walks, the walks of \<open>B\<close> continue
  walks that came before those still in \<open>A\<close>, and every queued walk is the least one
  of its length to its last cell.\<close>

definition bfs_order ::
  "coord list \<Rightarrow> coord list \<Rightarrow> coord \<Rightarrow> coord list list \<Rightarrow> coord list list \<Rightarrow> bool" where
  "bfs_order snake_body obs start A B \<longleftrightarrow>
     sorted_wrt (<) (map (\<lambda>p. moves start (tl p)) A)
     \<and> sorted_wrt (<) (map (\<lambda>p. moves start (tl p)) B)
     \<and> (\<forall>a \<in> set A. \<forall>b \<in> set B. butlast (moves start (tl b)) < moves start (tl a))
     \<and> (\<forall>p \<in> set (A @ B). \<forall>w. grid_path snake_body obs start w \<and> last (start # w) = last p
              \<and> length w = length (tl p) \<longrightarrow> moves start (tl p) \<le> moves start w)"

section \<open>Properties of the Snake class\<close>

lemma move_cases:
  assumes "move s = Inr (c, s')"
  obtains (collision) "c" "s' = s" "positions s \<noteq> []"
  | (shift) new_head where "\<not> c" "positions s \<noteq> []"
      "int (length (positions s)) + 1 > length_snake s"
      "s' = s\<lparr>positions := new_head # butlast (positions s)\<rparr>"
  | (extend) new_head where "\<not> c" "positions s \<noteq> []"
      "int (length (positions s)) + 1 \<le> length_snake s"
      "s' = s\<lparr>positions := new_head # positions s\<rparr>"
proof (cases "positions s")
  case Nil
  with assms show ?thesis by (simp add: move_def get_head_position_def)
next
  case (Cons cur rest)
  obtain x y where d: "direction s = (x, y)" by (cases "direction s")
  from assms Cons d show ?thesis
    by (auto simp: move_def get_head_position_def Let_def split: if_splits
             intro: collision shift extend)
qed

lemma reachable_body:
  "reachable s \<Longrightarrow> positions s \<noteq> [] \<and> int (length (positions s)) \<le> length_snake s"
proof (induction rule: reachable.induct)
  case (reach_reset g s g')
  then show ?case
    by (auto simp: reset_def choice_def split: if_splits)
next
  case (reach_turn s d)
  then show ?case by (simp add: turn_def)
next
  case (reach_move s c s')
  from reach_move.hyps(2) show ?case
  proof (cases rule: move_cases)
    case collision
    with reach_move.IH show ?thesis by simp
  next
    case (shift new_head)
    with reach_move.IH show ?thesis by simp
  next
    case (extend new_head)
    then show ?thesis by simp
  qed
next
  case (reach_grow s)
  then show ?case by (simp add: grow_def)
qed

text \<open>C3: \<open>turn d\<close> changes nothing when \<open>length > 1\<close> and \<open>d\<close> is the exact
  opposite of the heading; otherwise, and always when \<open>length = 1\<close>, the heading
  becomes \<open>d\<close>. The body, the length and the score are never changed.\<close>

theorem turn_spec:
  "(length_snake s > 1 \<and> d = (- fst (direction s), - snd (direction s)) \<longrightarrow> turn d s = s)
   \<and> (\<not> (length_snake s > 1 \<and> d = (- fst (direction s), - snd (direction s)))
        \<longrightarrow> direction (turn d s) = d)
   \<and> (length_snake s = 1 \<longrightarrow> direction (turn d s) = d)
   \<and> positions (turn d s) = positions s
   \<and> length_snake (turn d s) = length_snake s
   \<and> score (turn d s) = score s"
  by (cases d; cases "direction s") (auto simp: turn_def)

theorem turn_spec_witness:
  "turn LEFT \<lparr>length_snake = 2, positions = [(11, 10), (10, 10)], direction = RIGHT, score = 1\<rparr>
     = \<lparr>length_snake = 2, positions = [(11, 10), (10, 10)], direction = RIGHT, score = 1\<rparr>
   \<and> direction (turn LEFT \<lparr>length_snake = 1, positions = [(10, 10)], direction = RIGHT, score = 0\<rparr>)
     = LEFT
   \<and> direction (turn UP \<lparr>length_snake = 2, positions = [(11, 10), (10, 10)], direction = RIGHT, score = 1\<rparr>)
     = UP"
  using turn_spec [of "\<lparr>length_snake = 2, positions = [(11, 10), (10, 10)], direction = RIGHT, score = 1\<rparr>" LEFT]
    turn_spec [of "\<lparr>length_snake = 1, positions = [(10, 10)], direction = RIGHT, score = 0\<rparr>" LEFT]
    turn_spec [of "\<lparr>length_snake = 2, positions = [(11, 10), (10, 10)], direction = RIGHT, score = 1\<rparr>" UP]
  by (simp add: LEFT_def RIGHT_def UP_def)

text \<open>C1: in every reachable state the body is non-empty and \<open>move\<close> computes the
  wrapped sum of head and heading; if \<open>length > 2\<close> and the new head occurs in
  \<open>body[2:]\<close> it returns \<open>True\<close> and leaves the snake as it is; otherwise it
  puts the new head in front, drops the last cell when the body is then longer than
  \<open>length\<close>, and returns \<open>False\<close>.\<close>

theorem move_spec:
  assumes "reachable s"
  shows "\<exists>cur rest. positions s = cur # rest \<and>
     (let new_head = ((fst cur + fst (direction s)) mod GRID_SIZE,
                      (snd cur + snd (direction s)) mod GRID_SIZE)
      in move s =
           Inr (if length_snake s > 2 \<and> new_head \<in> set (drop 2 (positions s))
                then (True, s)
                else (False,
                      s\<lparr>positions :=
                          (if int (length (new_head # positions s)) > length_snake s
                           then butlast (new_head # positions s)
                           else new_head # positions s)\<rparr>)))"
proof -
  from reachable_body [OF assms]
  obtain cur rest where ps: "positions s = cur # rest"
    and len: "int (length (positions s)) \<le> length_snake s"
    by (cases "positions s") auto
  obtain x y where d: "direction s = (x, y)" by (cases "direction s")
  have "new_head \<in> set (drop 2 (positions s)) \<Longrightarrow> length (positions s) > 2" for new_head
    by (cases "positions s" rule: list.exhaust; cases rest) (auto simp: ps)
  then show ?thesis
    using len by (auto simp: ps move_def get_head_position_def d Let_def)
qed


theorem move_spec_witness:
  "reachable \<lparr>length_snake = 1, positions = [(10, 10)], direction = RIGHT, score = 0\<rparr>
   \<and> move \<lparr>length_snake = 1, positions = [(10, 10)], direction = RIGHT, score = 0\<rparr>
     = Inr (False, \<lparr>length_snake = 1, positions = [(11, 10)], direction = RIGHT, score = 0\<rparr>)"
proof -
  let ?s = "\<lparr>length_snake = 1, positions = [(10, 10)], direction = RIGHT, score = 0\<rparr>"
  have "reset (\<lambda>n. 3) = Inr (?s, \<lambda>n. 3)"
    by (simp add: reset_def choice_def GRID_SIZE_def)
  then have r: "reachable ?s" by (rule reach_reset)
  from move_spec [OF r] r show ?thesis
    by (simp add: GRID_SIZE_def RIGHT_def)
qed

text \<open>C8: \<open>move\<close> works with the head plus the heading, each component taken
  modulo \<open>GRID_SIZE\<close>: it either reports a collision of that cell with
  \<open>positions[2:]\<close> and changes nothing, or makes that cell the head; from
  \<open>(GRID_SIZE - 1, y)\<close> heading \<open>RIGHT\<close> the new head is \<open>(0, y)\<close>.\<close>

theorem move_wraps:
  assumes "positions s = (x, y) # rest" and "direction s = (dx, dy)"
  shows "\<exists>c s'. move s = Inr (c, s')
     \<and> (c \<longrightarrow> s' = s
            \<and> ((x + dx) mod GRID_SIZE, (y + dy) mod GRID_SIZE) \<in> set (drop 2 (positions s)))
     \<and> (\<not> c \<longrightarrow> hd (positions s') = ((x + dx) mod GRID_SIZE, (y + dy) mod GRID_SIZE)
            \<and> (x = GRID_SIZE - 1 \<and> (dx, dy) = RIGHT \<and> 0 \<le> y \<and> y < GRID_SIZE
                 \<longrightarrow> hd (positions s') = (0, y)))"
  using assms
  by (auto simp: move_def get_head_position_def Let_def RIGHT_def GRID_SIZE_def)

theorem move_wraps_witness:
  "move \<lparr>length_snake = 2, positions = [(19, 7), (18, 7)], direction = RIGHT, score = 1\<rparr>
     = Inr (False, \<lparr>length_snake = 2, positions = [(0, 7), (19, 7)], direction = RIGHT, score = 1\<rparr>)
   \<and> hd (positions \<lparr>length_snake = 2, positions = [(0, 7), (19, 7)], direction = RIGHT, score = 1\<rparr>)
     = (0, 7)"
proof -
  let ?s = "\<lparr>length_snake = 2, positions = [(19, 7), (18, 7)], direction = RIGHT, score = 1\<rparr>"
  let ?s' = "\<lparr>length_snake = 2, positions = [(0, 7), (19, 7)], direction = RIGHT, score = 1\<rparr>"
  have m: "move ?s = Inr (False, ?s')"
    by (simp add: move_def get_head_position_def Let_def RIGHT_def GRID_SIZE_def)
  have "positions ?s = (19, 7) # [(18, 7)]" and "direction ?s = (1, 0)"
    by (simp_all add: RIGHT_def)
  from move_wraps [OF this] m show ?thesis
    by (simp add: GRID_SIZE_def RIGHT_def)
qed

text \<open>C4: the body does not stay free of duplicates. \<open>turn\<close> compares its argument
  with the pending heading, not with the direction of the last \<open>move\<close>, so two
  turns before one \<open>move\<close> reverse a snake of length 3 into the cell behind its
  head, which the collision test (\<open>positions[2:]\<close>) does not look at.\<close>

theorem double_turn_duplicates_body:
  "reset (\<lambda>n. 3) = Inr (\<lparr>length_snake = 1, positions = [(10, 10)], direction = RIGHT, score = 0\<rparr>, \<lambda>n. 3)
   \<and> move (grow (grow \<lparr>length_snake = 1, positions = [(10, 10)], direction = RIGHT, score = 0\<rparr>))
     = Inr (False, \<lparr>length_snake = 3, positions = [(11, 10), (10, 10)], direction = RIGHT, score = 2\<rparr>)
   \<and> move \<lparr>length_snake = 3, positions = [(11, 10), (10, 10)], direction = RIGHT, score = 2\<rparr>
     = Inr (False, \<lparr>length_snake = 3, positions = [(12, 10), (11, 10), (10, 10)], direction = RIGHT, score = 2\<rparr>)
   \<and> move (turn LEFT (turn UP
        \<lparr>length_snake = 3, positions = [(12, 10), (11, 10), (10, 10)], direction = RIGHT, score = 2\<rparr>))
     = Inr (False, \<lparr>length_snake = 3, positions = [(11, 10), (12, 10), (11, 10)], direction = LEFT, score = 2\<rparr>)
   \<and> \<not> distinct [(11, 10), (12, 10), (11, 10) :: coord]"
  by (simp add: reset_def choice_def move_def get_head_position_def grow_def turn_def Let_def
        UP_def LEFT_def RIGHT_def GRID_SIZE_def)

subsection \<open>One turn per move keeps the body free of duplicates\<close>

text \<open>The counterpart of the run above: as long as every \<open>move\<close> follows at most one
  \<open>turn\<close> and no collision has been reported, \<open>move\<close> leaves a body without
  duplicates.\<close>

lemma wrap_add_on_grid: "on_grid (wrap_add c d)"
  by (simp add: wrap_add_def on_grid_def GRID_SIZE_def)

lemma mod_shift_neq:
  fixes x :: int
  assumes "0 \<le> x" and "x < 20"
  shows "(x + 1) mod 20 \<noteq> x" and "(x - 1) mod 20 \<noteq> x"
    and "(x + 2) mod 20 \<noteq> x" and "(x - 2) mod 20 \<noteq> x"
proof -
  show "(x + 1) mod 20 \<noteq> x"
    using assms by (cases "x = 19") simp_all
  show "(x - 1) mod 20 \<noteq> x"
    using assms by (cases "x = 0") simp_all
  show "(x + 2) mod 20 \<noteq> x"
    using assms by (cases "x = 18"; cases "x = 19") simp_all
  show "(x - 2) mod 20 \<noteq> x"
    using assms by (cases "x = 0"; cases "x = 1") simp_all
qed

lemma mod_same:
  fixes x :: int
  assumes "0 \<le> x" and "x < 20"
  shows "x mod 20 = x"
  using assms by simp

lemma wrap_add_neq:
  assumes "d \<in> set [UP, DOWN, LEFT, RIGHT]" and "on_grid h"
  shows "wrap_add h d \<noteq> h"
proof -
  obtain x y where h: "h = (x, y)" by (cases h)
  from assms(2) have r: "0 \<le> x" "x < 20" "0 \<le> y" "y < 20"
    by (simp_all add: on_grid_def h GRID_SIZE_def)
  from assms(1) consider "d = UP" | "d = DOWN" | "d = LEFT" | "d = RIGHT" by auto
  then show ?thesis
  proof cases
    case 1
    then show ?thesis using mod_shift_neq(2) [OF r(3,4)]
      by (simp add: wrap_add_def h UP_def GRID_SIZE_def)
  next
    case 2
    then show ?thesis using mod_shift_neq(1) [OF r(3,4)]
      by (simp add: wrap_add_def h DOWN_def GRID_SIZE_def)
  next
    case 3
    then show ?thesis using mod_shift_neq(2) [OF r(1,2)]
      by (simp add: wrap_add_def h LEFT_def GRID_SIZE_def)
  next
    case 4
    then show ?thesis using mod_shift_neq(1) [OF r(1,2)]
      by (simp add: wrap_add_def h RIGHT_def GRID_SIZE_def)
  qed
qed

lemma move_no_collision:
  assumes "positions s = h # rest" and "move s = Inr (False, s')"
  shows "wrap_add h (direction s) \<notin> set (drop 1 rest)"
    and "s' = s\<lparr>positions :=
            (if int (length rest) + 2 > length_snake s
             then wrap_add h (direction s) # butlast (h # rest)
             else wrap_add h (direction s) # h # rest)\<rparr>"
proof -
  obtain x y where d: "direction s = (x, y)" by (cases "direction s")
  have in_drop: "c \<in> set (drop 1 rest) \<Longrightarrow> 1 < length rest" for c
    by (cases rest) auto
  from assms show "wrap_add h (direction s) \<notin> set (drop 1 rest)"
    by (auto simp: move_def get_head_position_def Let_def d wrap_add_def
             split: if_splits dest: in_drop)
  from assms show "s' = s\<lparr>positions :=
            (if int (length rest) + 2 > length_snake s
             then wrap_add h (direction s) # butlast (h # rest)
             else wrap_add h (direction s) # h # rest)\<rparr>"
    by (auto simp: move_def get_head_position_def Let_def d wrap_add_def
             split: if_splits)
qed

lemma direction_sum:
  assumes "d \<in> set [UP, DOWN, LEFT, RIGHT]" and "e \<in> set [UP, DOWN, LEFT, RIGHT]"
    and "(fst e * -1, snd e * -1) \<noteq> d"
  shows "fst d + fst e \<in> {1, -1, 2, -2} \<or> snd d + snd e \<in> {1, -1, 2, -2}"
  using assms
  apply (simp add: UP_def DOWN_def LEFT_def RIGHT_def)
  apply (elim disjE)
                 apply simp_all
  done

lemma wrap_add_twice_neq:
  assumes d: "d \<in> set [UP, DOWN, LEFT, RIGHT]" and e: "e \<in> set [UP, DOWN, LEFT, RIGHT]"
    and ne: "(fst e * -1, snd e * -1) \<noteq> d" and n: "on_grid n"
  shows "wrap_add (wrap_add n d) e \<noteq> n"
proof -
  obtain x y where nn: "n = (x, y)" by (cases n)
  from n have r: "0 \<le> x" "x < 20" "0 \<le> y" "y < 20"
    by (simp_all add: on_grid_def nn GRID_SIZE_def)
  have tw: "wrap_add (wrap_add (x, y) d) e
      = ((x + (fst d + fst e)) mod 20, (y + (snd d + snd e)) mod 20)"
    by (simp add: wrap_add_def GRID_SIZE_def mod_add_left_eq add.assoc)
  have kx: "(x + k) mod 20 \<noteq> x" if "k \<in> {1, -1, 2, -2}" for k
    using that mod_shift_neq [OF r(1,2)] by (elim insertE) simp_all
  have ky: "(y + k) mod 20 \<noteq> y" if "k \<in> {1, -1, 2, -2}" for k
    using that mod_shift_neq [OF r(3,4)] by (elim insertE) simp_all
  from direction_sum [OF d e ne] show ?thesis
  proof
    assume "fst d + fst e \<in> {1, -1, 2, -2}"
    from kx [OF this] show ?thesis unfolding nn tw by simp
  next
    assume "snd d + snd e \<in> {1, -1, 2, -2}"
    from ky [OF this] show ?thesis unfolding nn tw by simp
  qed
qed

lemma paced_inv_nonempty:
  assumes "paced_inv s"
  shows "positions s \<noteq> []"
proof -
  from assms(1) have "positions s \<noteq> []"
    unfolding paced_inv_def by (elim conjE)
  then show ?thesis .
qed

lemma paced_inv_distinct:
  assumes "paced_inv s"
  shows "distinct (positions s)"
proof -
  from assms(1) have "distinct (positions s)"
    unfolding paced_inv_def by (elim conjE)
  then show ?thesis .
qed

lemma paced_inv_dir:
  assumes "paced_inv s"
  shows "direction s \<in> set [UP, DOWN, LEFT, RIGHT]"
proof -
  from assms(1) have "direction s \<in> set [UP, DOWN, LEFT, RIGHT]"
    unfolding paced_inv_def by (elim conjE)
  then show ?thesis .
qed

lemma paced_inv_len:
  assumes "paced_inv s"
  shows "int (length (positions s)) \<le> length_snake s"
proof -
  from assms(1) have "int (length (positions s)) \<le> length_snake s"
    unfolding paced_inv_def by (elim conjE)
  then show ?thesis .
qed

lemma paced_inv_grid:
  assumes "paced_inv s"
    and "c \<in> set (positions s)"
  shows "on_grid c"
proof -
  from assms(1) have "\<forall>c \<in> set (positions s). on_grid c"
    unfolding paced_inv_def by (elim conjE)
  with assms(2-) show ?thesis by blast
qed

lemma paced_inv_neck:
  assumes "paced_inv s"
    and "positions s = h # n # rest"
  shows "h = wrap_add n (direction s)"
proof -
  from assms(1) have "\<forall>h n rest. positions s = h # n # rest \<longrightarrow> h = wrap_add n (direction s)"
    unfolding paced_inv_def by (elim conjE)
  with assms(2-) show ?thesis by blast
qed

lemma ready_nonempty:
  assumes "ready s"
  shows "positions s \<noteq> []"
proof -
  from assms(1) have "positions s \<noteq> []"
    unfolding ready_def by (elim conjE)
  then show ?thesis .
qed

lemma ready_distinct:
  assumes "ready s"
  shows "distinct (positions s)"
proof -
  from assms(1) have "distinct (positions s)"
    unfolding ready_def by (elim conjE)
  then show ?thesis .
qed

lemma ready_dir:
  assumes "ready s"
  shows "direction s \<in> set [UP, DOWN, LEFT, RIGHT]"
proof -
  from assms(1) have "direction s \<in> set [UP, DOWN, LEFT, RIGHT]"
    unfolding ready_def by (elim conjE)
  then show ?thesis .
qed

lemma ready_len:
  assumes "ready s"
  shows "int (length (positions s)) \<le> length_snake s"
proof -
  from assms(1) have "int (length (positions s)) \<le> length_snake s"
    unfolding ready_def by (elim conjE)
  then show ?thesis .
qed

lemma ready_grid:
  assumes "ready s"
    and "c \<in> set (positions s)"
  shows "on_grid c"
proof -
  from assms(1) have "\<forall>c \<in> set (positions s). on_grid c"
    unfolding ready_def by (elim conjE)
  with assms(2-) show ?thesis by blast
qed

lemma ready_neck:
  assumes "ready s"
    and "positions s = h # n # rest"
  shows "wrap_add h (direction s) \<noteq> n"
proof -
  from assms(1) have "\<forall>h n rest. positions s = h # n # rest \<longrightarrow> wrap_add h (direction s) \<noteq> n"
    unfolding ready_def by (elim conjE)
  with assms(2-) show ?thesis by blast
qed

lemma opposite_neq:
  assumes "d \<in> set [UP, DOWN, LEFT, RIGHT]"
  shows "(fst d * -1, snd d * -1) \<noteq> d"
  using assms by (auto simp: UP_def DOWN_def LEFT_def RIGHT_def)

lemma readyI:
  assumes "positions s \<noteq> []" and "distinct (positions s)"
    and "direction s \<in> set [UP, DOWN, LEFT, RIGHT]"
    and "int (length (positions s)) \<le> length_snake s"
    and "\<forall>c \<in> set (positions s). on_grid c"
    and "\<forall>h n rest. positions s = h # n # rest \<longrightarrow> wrap_add h (direction s) \<noteq> n"
  shows "ready s"
  unfolding ready_def by (intro conjI assms)

lemma paced_invI:
  assumes "positions s \<noteq> []" and "distinct (positions s)"
    and "direction s \<in> set [UP, DOWN, LEFT, RIGHT]"
    and "int (length (positions s)) \<le> length_snake s"
    and "\<forall>c \<in> set (positions s). on_grid c"
    and "\<forall>h n rest. positions s = h # n # rest \<longrightarrow> h = wrap_add n (direction s)"
  shows "paced_inv s"
  unfolding paced_inv_def by (intro conjI assms)

lemma paced_inv_ready:
  assumes inv: "paced_inv s"
  shows "ready s"
proof (rule readyI)
  show "\<forall>h n rest. positions s = h # n # rest \<longrightarrow> wrap_add h (direction s) \<noteq> n"
  proof (intro allI impI)
    fix h n rest
    assume ps: "positions s = h # n # rest"
    have h: "h = wrap_add n (direction s)" by (rule paced_inv_neck [OF inv ps])
    have n: "on_grid n" using paced_inv_grid [OF inv, of n] ps by simp
    note d = paced_inv_dir [OF inv]
    from wrap_add_twice_neq [OF d d opposite_neq [OF d] n]
    show "wrap_add h (direction s) \<noteq> n" unfolding h .
  qed
  show "\<forall>c \<in> set (positions s). on_grid c" using paced_inv_grid [OF inv] by blast
qed (rule paced_inv_nonempty [OF inv] paced_inv_distinct [OF inv] paced_inv_dir [OF inv]
      paced_inv_len [OF inv])+

lemma paced_inv_turn_ready:
  assumes inv: "paced_inv s" and d: "d \<in> set [UP, DOWN, LEFT, RIGHT]"
  shows "ready (turn d s)"
proof (cases "length_snake s > 1 \<and> (fst d * -1, snd d * -1) = direction s")
  case True
  then have "turn d s = s" by (simp add: turn_def)
  with paced_inv_ready [OF inv] show ?thesis by simp
next
  case False
  then have t: "turn d s = s\<lparr>direction := d\<rparr>" by (auto simp: turn_def)
  show ?thesis unfolding t
  proof (rule readyI)
    show "\<forall>h n rest. positions (s\<lparr>direction := d\<rparr>) = h # n # rest
            \<longrightarrow> wrap_add h (direction (s\<lparr>direction := d\<rparr>)) \<noteq> n"
    proof (intro allI impI)
      fix h n rest
      assume "positions (s\<lparr>direction := d\<rparr>) = h # n # rest"
      then have ps: "positions s = h # n # rest" by simp
      have h: "h = wrap_add n (direction s)" by (rule paced_inv_neck [OF inv ps])
      have n: "on_grid n" using paced_inv_grid [OF inv, of n] ps by simp
      from paced_inv_len [OF inv] ps have "length_snake s > 1" by simp
      with False have ne: "(fst d * -1, snd d * -1) \<noteq> direction s" by simp
      from wrap_add_twice_neq [OF paced_inv_dir [OF inv] d ne n]
      show "wrap_add h (direction (s\<lparr>direction := d\<rparr>)) \<noteq> n" unfolding h by simp
    qed
    show "\<forall>c \<in> set (positions (s\<lparr>direction := d\<rparr>)). on_grid c"
      using paced_inv_grid [OF inv] by simp
    show "positions (s\<lparr>direction := d\<rparr>) \<noteq> []" using paced_inv_nonempty [OF inv] by simp
    show "distinct (positions (s\<lparr>direction := d\<rparr>))" using paced_inv_distinct [OF inv] by simp
    show "direction (s\<lparr>direction := d\<rparr>) \<in> set [UP, DOWN, LEFT, RIGHT]" using d by simp
    show "int (length (positions (s\<lparr>direction := d\<rparr>))) \<le> length_snake (s\<lparr>direction := d\<rparr>)"
      using paced_inv_len [OF inv] by simp
  qed
qed

lemma ready_move:
  assumes r: "ready s" and mv: "move s = Inr (False, s')"
  shows "paced_inv s'"
proof -
  from ready_nonempty [OF r] obtain h rest where ps: "positions s = h # rest"
    by (cases "positions s") auto
  let ?nh = "wrap_add h (direction s)"
  have dist: "distinct (h # rest)" using ready_distinct [OF r] ps by simp
  have grid: "\<forall>c \<in> set (h # rest). on_grid c" using ready_grid [OF r] ps by simp
  note d = ready_dir [OF r]
  have len: "int (length (h # rest)) \<le> length_snake s" using ready_len [OF r] ps by simp
  from grid have hg: "on_grid h" by simp
  have nh_h: "?nh \<noteq> h" by (rule wrap_add_neq [OF d hg])
  have nh_rest: "?nh \<notin> set rest"
  proof (cases rest)
    case Nil
    then show ?thesis by simp
  next
    case (Cons n rest')
    have "?nh \<noteq> n" by (rule ready_neck [OF r]) (simp add: ps Cons)
    moreover have "?nh \<notin> set rest'"
      using move_no_collision(1) [OF ps mv] Cons by simp
    ultimately show ?thesis using Cons by simp
  qed
  have new: "?nh \<notin> set (h # rest)" using nh_h nh_rest by simp
  note s' = move_no_collision(2) [OF ps mv]
  show ?thesis
  proof (cases "int (length rest) + 2 > length_snake s")
    case True
    then have p': "positions s' = ?nh # butlast (h # rest)" and d': "direction s' = direction s"
      and l': "length_snake s' = length_snake s"
      unfolding s' by simp_all
    have sub: "set (butlast (h # rest)) \<subseteq> set (h # rest)"
      by (meson in_set_butlastD subsetI)
    have "distinct (butlast (h # rest))" using dist by (rule distinct_butlast)
    with new sub have c2: "distinct (positions s')" unfolding p' by auto
    have c5: "\<forall>c \<in> set (positions s'). on_grid c"
      unfolding p' using grid sub wrap_add_on_grid by auto
    have c4: "int (length (positions s')) \<le> length_snake s'"
      unfolding p' l' using len by simp
    have c6: "\<forall>a n r'. positions s' = a # n # r' \<longrightarrow> a = wrap_add n (direction s')"
      unfolding p' d' by (cases rest) auto
    show ?thesis
      by (rule paced_invI) (use c2 c4 c5 c6 d p' d' in simp_all)
  next
    case False
    then have p': "positions s' = ?nh # h # rest" and d': "direction s' = direction s"
      and l': "length_snake s' = length_snake s"
      unfolding s' by simp_all
    have c2: "distinct (positions s')" unfolding p' using new dist by simp
    have c5: "\<forall>c \<in> set (positions s'). on_grid c"
      unfolding p' using grid wrap_add_on_grid by simp
    have c4: "int (length (positions s')) \<le> length_snake s'"
      unfolding p' l' using False by simp
    have c6: "\<forall>a n r'. positions s' = a # n # r' \<longrightarrow> a = wrap_add n (direction s')"
      unfolding p' d' by auto
    show ?thesis
      by (rule paced_invI) (use c2 c4 c5 c6 d p' d' in simp_all)
  qed
qed

lemma paced_paced_inv: "paced s \<Longrightarrow> paced_inv s"
proof (induction rule: paced.induct)
  case (paced_reset g s g')
  then have s: "s = \<lparr>length_snake = 1, positions = [(GRID_SIZE div 2, GRID_SIZE div 2)],
      direction = [UP, DOWN, LEFT, RIGHT] ! (g 0 mod 4), score = 0\<rparr>"
    by (auto simp: reset_def choice_def)
  have "g 0 mod 4 < 4" by simp
  then have "[UP, DOWN, LEFT, RIGHT] ! (g 0 mod 4) \<in> set [UP, DOWN, LEFT, RIGHT]"
    by (intro nth_mem) simp
  then show ?case
    by (intro paced_invI) (simp_all add: s on_grid_def GRID_SIZE_def)
next
  case (paced_tick s d s')
  from ready_move [OF paced_inv_turn_ready [OF paced_tick.IH paced_tick.hyps(2)] paced_tick.hyps(3)]
  show ?case .
next
  case (paced_move s s')
  from ready_move [OF paced_inv_ready [OF paced_move.IH] paced_move.hyps(2)]
  show ?case .
next
  case (paced_grow s)
  note inv = paced_grow.IH
  show ?case
    by (rule paced_invI)
      (use paced_inv_nonempty [OF inv] paced_inv_distinct [OF inv] paced_inv_dir [OF inv]
        paced_inv_len [OF inv] paced_inv_grid [OF inv] paced_inv_neck [OF inv]
       in \<open>simp_all add: grow_def\<close>)
qed

lemma move_collision_same:
  assumes "move s = Inr (True, s')"
  shows "s' = s"
  using assms
  by (auto simp: move_def get_head_position_def Let_def split: list.splits prod.splits if_splits)

lemma paced_distinct:
  assumes "paced s" and "d \<in> set [UP, DOWN, LEFT, RIGHT]"
    and "move (turn d s) = Inr (c, s')"
  shows "distinct (positions s')"
proof (cases c)
  case True
  with assms(3) have "s' = turn d s" by (simp add: move_collision_same)
  with ready_distinct [OF paced_inv_turn_ready [OF paced_paced_inv [OF assms(1)] assms(2)]]
  show ?thesis by simp
next
  case False
  with assms have "paced s'" by (auto intro: paced_tick)
  from paced_inv_distinct [OF paced_paced_inv [OF this]] show ?thesis .
qed

section \<open>Properties of the placement\<close>

lemma get_random_position_sound:
  assumes "get_random_position snake_body obs food_pos g = Some y"
  shows "fst y \<notin> set snake_body \<and> fst y \<notin> set obs \<and> Some (fst y) \<noteq> food_pos
     \<and> fst (fst y) \<in> {0..<GRID_SIZE} \<and> snd (fst y) \<in> {0..<GRID_SIZE}"
proof (rule get_random_position.raw_induct
    [where P = "\<lambda>b ob fp t r. fst r \<notin> set b \<and> fst r \<notin> set ob \<and> Some (fst r) \<noteq> fp
       \<and> fst (fst r) \<in> {0..<GRID_SIZE} \<and> snd (fst r) \<in> {0..<GRID_SIZE}", OF _ assms])
  fix rec :: "coord list \<Rightarrow> coord list \<Rightarrow> coord option \<Rightarrow> rng \<Rightarrow> (coord \<times> rng) option"
    and b ob fp t r
  assume IH: "\<And>b ob fp t r. rec b ob fp t = Some r \<Longrightarrow>
      fst r \<notin> set b \<and> fst r \<notin> set ob \<and> Some (fst r) \<noteq> fp
       \<and> fst (fst r) \<in> {0..<GRID_SIZE} \<and> snd (fst r) \<in> {0..<GRID_SIZE}"
    and eq: "(case randint 0 (GRID_SIZE - 1) t of (px, g1) \<Rightarrow>
        (case randint 0 (GRID_SIZE - 1) g1 of (py, g2) \<Rightarrow>
           if (px, py) \<notin> set b \<and> (px, py) \<notin> set ob \<and> (fp = None \<or> Some (px, py) \<noteq> fp)
           then Some ((px, py), g2)
           else rec b ob fp g2)) = Some r"
  obtain px g1 where r1: "randint 0 (GRID_SIZE - 1) t = (px, g1)"
    by (cases "randint 0 (GRID_SIZE - 1) t")
  obtain py g2 where r2: "randint 0 (GRID_SIZE - 1) g1 = (py, g2)"
    by (cases "randint 0 (GRID_SIZE - 1) g1")
  have range: "px \<in> {0..<GRID_SIZE}" "py \<in> {0..<GRID_SIZE}"
    using r1 r2 by (auto simp: randint_def GRID_SIZE_def)
  show "fst r \<notin> set b \<and> fst r \<notin> set ob \<and> Some (fst r) \<noteq> fp
       \<and> fst (fst r) \<in> {0..<GRID_SIZE} \<and> snd (fst r) \<in> {0..<GRID_SIZE}"
  proof (cases "(px, py) \<notin> set b \<and> (px, py) \<notin> set ob
                  \<and> (fp = None \<or> Some (px, py) \<noteq> fp)")
    case True
    with eq have "r = ((px, py), g2)" by (simp add: r1 r2)
    with True range show ?thesis by auto
  next
    case False
    with eq have "rec b ob fp g2 = Some r"
      by (simp add: r1 r2)
    then show ?thesis by (rule IH)
  qed
qed

text \<open>The sampling returns as soon as the generator offers an acceptable cell.\<close>

lemma get_random_position_returns:
  assumes "(int (g (2 * k)) mod GRID_SIZE, int (g (2 * k + 1)) mod GRID_SIZE) \<notin> set snake_body"
    and "(int (g (2 * k)) mod GRID_SIZE, int (g (2 * k + 1)) mod GRID_SIZE) \<notin> set obs"
    and "Some (int (g (2 * k)) mod GRID_SIZE, int (g (2 * k + 1)) mod GRID_SIZE) \<noteq> food_pos"
  shows "\<exists>y. get_random_position snake_body obs food_pos g = Some y"
  using assms
proof (induction k arbitrary: g)
  case 0
  then show ?case
    by (subst get_random_position.simps) (auto simp: randint_def GRID_SIZE_def)
next
  case (Suc k)
  let ?g = "\<lambda>n. g (Suc (Suc n))"
  have "\<exists>y. get_random_position snake_body obs food_pos ?g = Some y"
    using Suc.prems by (intro Suc.IH) simp_all
  then show ?case
    by (subst get_random_position.simps) (auto simp: randint_def GRID_SIZE_def)
qed

text \<open>C6: when \<open>Food.randomize_position\<close> returns, the new position differs from
  the previous one and is neither a cell of the body nor an obstacle passed to it.\<close>

theorem randomize_position_avoids:
  assumes "randomize_position f snake_body obs g = Some (f', g')"
  shows "position f' \<noteq> position f \<and> position f' \<notin> set snake_body
         \<and> position f' \<notin> set obs"
proof -
  from assms obtain pos where
    "get_random_position snake_body obs (Some (position f)) g = Some (pos, g')"
    and "f' = f\<lparr>position := pos\<rparr>"
    by (auto simp: randomize_position_def split: option.splits)
  with get_random_position_sound [of snake_body obs "Some (position f)" g "(pos, g')"]
  show ?thesis by auto
qed

theorem randomize_position_avoids_witness:
  "map_option fst (randomize_position \<lparr>position = (0, 0)\<rparr> [(1, 1), (2, 2)] [(3, 3)] (\<lambda>n. n div 2))
     = Some \<lparr>position = (4, 4)\<rparr>
   \<and> (4, 4) \<noteq> (0 :: int, 0 :: int) \<and> (4, 4) \<notin> set [(1, 1), (2, 2 :: int)]
   \<and> (4, 4) \<notin> set [(3 :: int, 3 :: int)]"
proof -
  obtain f' g' where r: "randomize_position \<lparr>position = (0, 0)\<rparr> [(1, 1), (2, 2)] [(3, 3)] (\<lambda>n. n div 2)
     = Some (f', g')" and f': "f' = \<lparr>position = (4, 4)\<rparr>"
    by (simp add: randomize_position_def get_random_position.simps randint_def GRID_SIZE_def)
  from randomize_position_avoids [OF r] r f' show ?thesis by simp
qed

section \<open>Properties of the game loop\<close>

lemma handle_event_game_over:
  assumes "game_over gs" and "ev \<noteq> KEYDOWN K_r"
  shows "handle_event ev gs g = (if ev = QUIT then Some Exited else Some (Returned (gs, g)))"
  using assms by (cases ev) (auto simp: handle_event_def)

lemma handle_events_game_over:
  assumes "game_over gs" and "KEYDOWN K_r \<notin> set evs"
  shows "handle_events evs gs g = (if QUIT \<in> set evs then Some Exited else Some (Returned (gs, g)))"
  using assms
proof (induction evs)
  case Nil
  show ?case by simp
next
  case (Cons ev evs)
  then have "ev \<noteq> KEYDOWN K_r" by auto
  from handle_event_game_over [OF Cons.prems(1) this] Cons show ?case
    by auto
qed

text \<open>C7: once \<open>game_over\<close> is set, an iteration whose events hold no press of
  \<open>R\<close> either leaves the program (a \<open>QUIT\<close> event) or ends with the snake, the
  obstacles, the food, the flags, the planned path and the random generator exactly as
  they were.\<close>

theorem game_over_sticky:
  assumes "game_over gs" and "KEYDOWN K_r \<notin> set evs"
  shows "tick evs gs g = (if QUIT \<in> set evs then Some Exited else Some (Returned (gs, g)))"
  using assms by (simp add: tick_def handle_events_game_over update_def)

theorem game_over_sticky_witness:
  "game_over \<lparr>snake = \<lparr>length_snake = 2, positions = [(3, 3), (2, 3)], direction = RIGHT, score = 1\<rparr>,
      obstacles = \<lparr>positions_obstacles = [(3, 3)], num_obstacles = 5\<rparr>,
      food = \<lparr>position = (7, 7)\<rparr>, game_over = True, autopilot_on = False, autopilot_path = []\<rparr>
   \<and> KEYDOWN K_r \<notin> set [KEYDOWN K_UP, KEYDOWN K_a, OTHER_EVENT, KEYDOWN K_ESCAPE]
   \<and> tick [KEYDOWN K_UP, KEYDOWN K_a, OTHER_EVENT, KEYDOWN K_ESCAPE]
        \<lparr>snake = \<lparr>length_snake = 2, positions = [(3, 3), (2, 3)], direction = RIGHT, score = 1\<rparr>,
         obstacles = \<lparr>positions_obstacles = [(3, 3)], num_obstacles = 5\<rparr>,
         food = \<lparr>position = (7, 7)\<rparr>, game_over = True, autopilot_on = False, autopilot_path = []\<rparr>
        (\<lambda>n. n)
      = Some (Returned
         (\<lparr>snake = \<lparr>length_snake = 2, positions = [(3, 3), (2, 3)], direction = RIGHT, score = 1\<rparr>,
           obstacles = \<lparr>positions_obstacles = [(3, 3)], num_obstacles = 5\<rparr>,
           food = \<lparr>position = (7, 7)\<rparr>, game_over = True, autopilot_on = False, autopilot_path = []\<rparr>,
          \<lambda>n. n))"
  using game_over_sticky [of "\<lparr>snake = \<lparr>length_snake = 2, positions = [(3, 3), (2, 3)], direction = RIGHT, score = 1\<rparr>,
      obstacles = \<lparr>positions_obstacles = [(3, 3)], num_obstacles = 5\<rparr>,
      food = \<lparr>position = (7, 7)\<rparr>, game_over = True, autopilot_on = False, autopilot_path = []\<rparr>"
      "[KEYDOWN K_UP, KEYDOWN K_a, OTHER_EVENT, KEYDOWN K_ESCAPE]" "\<lambda>n. n"]
  by simp

section \<open>Properties of the breadth-first search\<close>

lemma bfs_loop_Nil: "bfs_loop target_pos snake_body obs [] visited = Inr []"
  by (simp add: bfs_loop.simps)

lemma bfs_loop_Cons:
  "bfs_loop target_pos snake_body obs (path # rest) visited =
     (if path = [] then Inl IndexError
      else if last path = target_pos then Inr (drop 1 path)
      else (case fold (bfs_visit snake_body obs path) [UP, DOWN, LEFT, RIGHT] (rest, visited) of
              (queue', visited') \<Rightarrow> bfs_loop target_pos snake_body obs queue' visited'))"
  by (subst bfs_loop.simps) simp

text \<open>C10: with the target equal to the start the search returns the empty list,
  which is also what it returns when no path exists (here: the start is walled in).\<close>

theorem bfs_same_cell_empty:
  "bfs_pathfinding p p snake_body obs = Inr []
   \<and> bfs_pathfinding (0, 0) (5, 5) [] [(1, 0), (0, 1)] = Inr []"
  by (simp add: bfs_pathfinding_def bfs_loop_Cons bfs_loop_Nil bfs_visit_def
        UP_def DOWN_def LEFT_def RIGHT_def GRID_SIZE_def)

subsection \<open>Shortest paths\<close>

lemma grid_path_snoc:
  "grid_path snake_body obs a (w @ [c]) \<longleftrightarrow>
     grid_path snake_body obs a w \<and> grid_step (last (a # w)) c \<and> free_cell snake_body obs c"
proof (induction w arbitrary: a)
  case Nil
  show ?case by simp
next
  case (Cons x xs)
  show ?case using Cons.IH [of x] by (simp add: conj_ac)
qed

lemma reachI:
  "grid_path snake_body obs start w \<Longrightarrow> length w \<le> n \<Longrightarrow> last (start # w) = c
     \<Longrightarrow> reach snake_body obs start n c"
  unfolding reach_def by (rule exI [of _ w]) simp

lemma reachE:
  assumes "reach snake_body obs start n c"
  obtains w where "grid_path snake_body obs start w" "length w \<le> n" "last (start # w) = c"
  using assms unfolding reach_def by (elim exE conjE)

lemma reach_mono: "reach snake_body obs start k c \<Longrightarrow> k \<le> n \<Longrightarrow> reach snake_body obs start n c"
  by (erule reachE) (rule reachI, assumption, simp, assumption)

lemma reach_start: "reach snake_body obs start n start"
  by (rule reachI [of _ _ _ "[]"]) simp_all

lemma reach_0: "reach snake_body obs start 0 c \<Longrightarrow> c = start"
  by (erule reachE) simp

lemma reach_step:
  assumes "reach snake_body obs start n c0" and "grid_step c0 c" and "free_cell snake_body obs c"
  shows "reach snake_body obs start (Suc n) c"
proof -
  from assms(1) obtain w where w: "grid_path snake_body obs start w" "length w \<le> n"
    "last (start # w) = c0"
    by (rule reachE)
  show ?thesis
  proof (rule reachI [of _ _ _ "w @ [c]"])
    show "grid_path snake_body obs start (w @ [c])"
      using w(1,3) assms(2,3) by (simp add: grid_path_snoc)
    show "length (w @ [c]) \<le> Suc n" using w(2) by simp
    show "last (start # w @ [c]) = c" by simp
  qed
qed

lemma reach_Suc_cases:
  assumes "reach snake_body obs start (Suc n) c"
  obtains (less) "reach snake_body obs start n c"
  | (step) c0 where "reach snake_body obs start n c0" "grid_step c0 c" "free_cell snake_body obs c"
proof -
  from assms obtain w where w: "grid_path snake_body obs start w" "length w \<le> Suc n"
    "last (start # w) = c"
    by (rule reachE)
  show thesis
  proof (cases "length w \<le> n")
    case True
    with w(1,3) have "reach snake_body obs start n c" by (intro reachI)
    then show thesis by (rule less)
  next
    case False
    with w(2) have "w \<noteq> []" by auto
    then obtain w0 c' where w0: "w = w0 @ [c']" by (cases w rule: rev_cases) auto
    with w(3) have c': "c' = c" by simp
    from w(1) have gp: "grid_path snake_body obs start w0"
      "grid_step (last (start # w0)) c" "free_cell snake_body obs c"
      unfolding w0 c' grid_path_snoc by simp_all
    from w(2) w0 have "length w0 \<le> n" by simp
    with gp(1) have "reach snake_body obs start n (last (start # w0))"
      by (intro reachI) simp_all
    then show thesis using gp(2,3) by (rule step)
  qed
qed

lemma bfs_visit_eq:
  "bfs_visit snake_body obs p d (q, v) =
     (if free_cell snake_body obs (fst (last p) + fst d, snd (last p) + snd d)
         \<and> (fst (last p) + fst d, snd (last p) + snd d) \<notin> v
      then (q @ [p @ [(fst (last p) + fst d, snd (last p) + snd d)]],
            insert (fst (last p) + fst d, snd (last p) + snd d) v)
      else (q, v))"
  by (cases d) (auto simp: bfs_visit_def free_cell_def Let_def)

lemma fold_bfs_visit:
  "\<exists>news. fold (bfs_visit snake_body obs p) ds (q, v)
            = (q @ map (\<lambda>c. p @ [c]) news, v \<union> set news)
     \<and> distinct news
     \<and> set news = {c. c \<in> (\<lambda>d. (fst (last p) + fst d, snd (last p) + snd d)) ` set ds
                      \<and> free_cell snake_body obs c \<and> c \<notin> v}"
proof (induction ds arbitrary: q v)
  case Nil
  show ?case by simp
next
  case (Cons d ds)
  let ?c = "(fst (last p) + fst d, snd (last p) + snd d)"
  let ?S = "\<lambda>ds v. {c. c \<in> (\<lambda>d. (fst (last p) + fst d, snd (last p) + snd d)) ` set ds
                      \<and> free_cell snake_body obs c \<and> c \<notin> v}"
  show ?case
  proof (cases "free_cell snake_body obs ?c \<and> ?c \<notin> v")
    case True
    from Cons.IH [of "q @ [p @ [?c]]" "insert ?c v"]
    obtain news where n: "fold (bfs_visit snake_body obs p) ds (q @ [p @ [?c]], insert ?c v)
            = ((q @ [p @ [?c]]) @ map (\<lambda>c. p @ [c]) news, insert ?c v \<union> set news)"
      "distinct news" "set news = ?S ds (insert ?c v)"
      by (elim exE conjE)
    from True have "bfs_visit snake_body obs p d (q, v) = (q @ [p @ [?c]], insert ?c v)"
      by (simp add: bfs_visit_eq)
    then have a: "fold (bfs_visit snake_body obs p) (d # ds) (q, v)
        = (q @ map (\<lambda>c. p @ [c]) (?c # news), v \<union> set (?c # news))"
      using n(1) by simp
    have b: "distinct (?c # news)" using n(2,3) by simp
    have c: "set (?c # news) = ?S (d # ds) v"
    proof (rule set_eqI)
      fix x
      show "x \<in> set (?c # news) \<longleftrightarrow> x \<in> ?S (d # ds) v"
        using True by (cases "x = ?c") (simp_all add: n(3))
    qed
    show ?thesis by (rule exI [of _ "?c # news"]) (intro conjI a b c)
  next
    case False
    from Cons.IH [of q v]
    obtain news where n: "fold (bfs_visit snake_body obs p) ds (q, v)
            = (q @ map (\<lambda>c. p @ [c]) news, v \<union> set news)"
      "distinct news" "set news = ?S ds v"
      by (elim exE conjE)
    have "bfs_visit snake_body obs p d (q, v) = (q, v)"
      unfolding bfs_visit_eq using False by (rule if_not_P)
    then have a: "fold (bfs_visit snake_body obs p) (d # ds) (q, v)
        = (q @ map (\<lambda>c. p @ [c]) news, v \<union> set news)"
      using n(1) by simp
    have c: "set news = ?S (d # ds) v"
    proof (rule set_eqI)
      fix x
      show "x \<in> set news \<longleftrightarrow> x \<in> ?S (d # ds) v"
      proof (cases "x = ?c")
        case True
        have nf: "\<not> (free_cell snake_body obs x \<and> x \<notin> v)"
          using False unfolding True .
        have "x \<notin> ?S ds v" using nf by simp
        moreover have "x \<notin> ?S (d # ds) v" using nf by simp
        ultimately show ?thesis unfolding n(3) by (simp only: simp_thms)
      next
        case neq: False
        then show ?thesis unfolding n(3) by simp
      qed
    qed
    show ?thesis by (rule exI [of _ news]) (intro conjI a n(2) c)
  qed
qed

lemma inv_A:
  assumes "bfs_inv snake_body obs start target n A B visited"
    and "p \<in> set A"
  shows "\<exists>w. p = start # w \<and> grid_path snake_body obs start w \<and> length w = n"
proof -
  from assms(1) have "\<forall>p \<in> set A. \<exists>w. p = start # w \<and> grid_path snake_body obs start w \<and> length w = n"
    unfolding bfs_inv_def by (elim conjE)
  with assms(2-) show ?thesis by blast
qed

lemma inv_B:
  assumes "bfs_inv snake_body obs start target n A B visited"
    and "p \<in> set B"
  shows "\<exists>w. p = start # w \<and> grid_path snake_body obs start w \<and> length w = Suc n"
proof -
  from assms(1) have "\<forall>p \<in> set B. \<exists>w. p = start # w \<and> grid_path snake_body obs start w \<and> length w = Suc n"
    unfolding bfs_inv_def by (elim conjE)
  with assms(2-) show ?thesis by blast
qed

lemma inv_paths:
  assumes "bfs_inv snake_body obs start target n A B visited"
    and "p \<in> set (A @ B)"
  shows "distinct p \<and> set p \<subseteq> visited"
proof -
  from assms(1) have "\<forall>p \<in> set (A @ B). distinct p \<and> set p \<subseteq> visited"
    unfolding bfs_inv_def by (elim conjE)
  with assms(2-) show ?thesis by blast
qed

lemma inv_ends:
  assumes "bfs_inv snake_body obs start target n A B visited"
  shows "distinct (map last (A @ B))"
proof -
  from assms(1) have "distinct (map last (A @ B))"
    unfolding bfs_inv_def by (elim conjE)
  then show ?thesis .
qed

lemma inv_reach:
  assumes "bfs_inv snake_body obs start target n A B visited"
    and "reach snake_body obs start n c"
  shows "c \<in> visited"
proof -
  from assms(1) have "\<forall>c. reach snake_body obs start n c \<longrightarrow> c \<in> visited"
    unfolding bfs_inv_def by (elim conjE)
  with assms(2-) show ?thesis by blast
qed

lemma inv_far:
  assumes "bfs_inv snake_body obs start target n A B visited"
    and "p \<in> set B"
  shows "\<not> reach snake_body obs start n (last p)"
proof -
  from assms(1) have "\<forall>p \<in> set B. \<not> reach snake_body obs start n (last p)"
    unfolding bfs_inv_def by (elim conjE)
  with assms(2-) show ?thesis by blast
qed

lemma inv_done:
  assumes "bfs_inv snake_body obs start target n A B visited"
    and "c \<in> visited" and "c \<notin> last ` set (A @ B)"
  shows "c \<noteq> target \<and> (\<forall>c'. grid_step c c' \<and> free_cell snake_body obs c' \<longrightarrow> c' \<in> visited)"
proof -
  from assms(1) have "\<forall>c \<in> visited. c \<notin> last ` set (A @ B) \<longrightarrow> c \<noteq> target \<and> (\<forall>c'. grid_step c c' \<and> free_cell snake_body obs c' \<longrightarrow> c' \<in> visited)"
    unfolding bfs_inv_def by (elim conjE)
  with assms(2-) show ?thesis by blast
qed

lemma inv_near:
  assumes "bfs_inv snake_body obs start target n A B visited"
    and "k < n" and "reach snake_body obs start k c"
  shows "c \<notin> last ` set (A @ B)"
proof -
  from assms(1) have "\<forall>k < n. \<forall>c. reach snake_body obs start k c \<longrightarrow> c \<notin> last ` set (A @ B)"
    unfolding bfs_inv_def by (elim conjE)
  with assms(2-) show ?thesis by blast
qed

lemma inv_end_visited:
  assumes "bfs_inv snake_body obs start target n A B visited" and "p \<in> set (A @ B)"
  shows "last p \<in> visited"
proof -
  from assms(2) have "p \<in> set A \<or> p \<in> set B" by simp
  then obtain w where "p = start # w"
    using inv_A [OF assms(1)] inv_B [OF assms(1)] by blast
  then have "last p \<in> set p" by simp
  with inv_paths [OF assms] show ?thesis by blast
qed

lemma bfs_inv_init: "bfs_inv snake_body obs start target 0 [[start]] [] {start}"
  unfolding bfs_inv_def
proof (intro conjI)
  show "\<forall>c. reach snake_body obs start 0 c \<longrightarrow> c \<in> {start}"
    using reach_0 by blast
qed simp_all

lemma bfs_inv_shift:
  assumes inv: "bfs_inv snake_body obs start target n [] B visited"
  shows "bfs_inv snake_body obs start target (Suc n) B [] visited"
proof -
  have c1: "\<forall>p \<in> set B. \<exists>w. p = start # w \<and> grid_path snake_body obs start w
              \<and> length w = Suc n"
    using inv_B [OF inv] by blast
  have c2: "\<forall>p \<in> set []. \<exists>w. p = start # w \<and> grid_path snake_body obs start w
              \<and> length w = Suc (Suc n)"
    by simp
  have c3: "\<forall>p \<in> set (B @ []). distinct p \<and> set p \<subseteq> visited"
    using inv_paths [OF inv] by simp
  have c4: "distinct (map last (B @ []))"
    using inv_ends [OF inv] by simp
  have c5: "\<forall>c. reach snake_body obs start (Suc n) c \<longrightarrow> c \<in> visited"
  proof (intro allI impI)
    fix c
    assume "reach snake_body obs start (Suc n) c"
    then show "c \<in> visited"
    proof (cases rule: reach_Suc_cases)
      case less
      then show ?thesis by (rule inv_reach [OF inv])
    next
      case (step c0)
      from step(1) have v0: "c0 \<in> visited" by (rule inv_reach [OF inv])
      have "c0 \<notin> last ` set ([] @ B)"
      proof
        assume "c0 \<in> last ` set ([] @ B)"
        then obtain p where "p \<in> set B" "c0 = last p" by auto
        with inv_far [OF inv] step(1) show False by blast
      qed
      from inv_done [OF inv v0 this] step(2,3) show ?thesis by blast
    qed
  qed
  have c6: "\<forall>p \<in> set []. \<not> reach snake_body obs start (Suc n) (last p)"
    by simp
  have c7: "\<forall>c \<in> visited. c \<notin> last ` set (B @ []) \<longrightarrow>
            c \<noteq> target
            \<and> (\<forall>c'. grid_step c c' \<and> free_cell snake_body obs c' \<longrightarrow> c' \<in> visited)"
  proof (intro ballI impI)
    fix c
    assume "c \<in> visited" and "c \<notin> last ` set (B @ [])"
    then have "c \<in> visited" and "c \<notin> last ` set ([] @ B)" by simp_all
    then show "c \<noteq> target
            \<and> (\<forall>c'. grid_step c c' \<and> free_cell snake_body obs c' \<longrightarrow> c' \<in> visited)"
      by (rule inv_done [OF inv])
  qed
  have c8: "\<forall>k < Suc n. \<forall>c. reach snake_body obs start k c \<longrightarrow> c \<notin> last ` set (B @ [])"
  proof (intro allI impI)
    fix k c
    assume "k < Suc n" and r: "reach snake_body obs start k c"
    then have rn: "reach snake_body obs start n c" by (intro reach_mono [OF r]) simp
    show "c \<notin> last ` set (B @ [])"
    proof
      assume "c \<in> last ` set (B @ [])"
      then obtain p where "p \<in> set B" "c = last p" by auto
      with inv_far [OF inv] rn show False by blast
    qed
  qed
  show ?thesis
    unfolding bfs_inv_def by (intro conjI c1 c2 c3 c4 c5 c6 c7 c8)
qed

lemma bfs_inv_step:
  assumes inv: "bfs_inv snake_body obs start target n (p # A) B visited"
    and nt: "last p \<noteq> target"
    and dn: "distinct news"
    and sn: "set news = {c. grid_step (last p) c \<and> free_cell snake_body obs c \<and> c \<notin> visited}"
  shows "bfs_inv snake_body obs start target n A (B @ map (\<lambda>c. p @ [c]) news)
           (visited \<union> set news)"
proof -
  from inv_A [OF inv, of p] obtain w where p: "p = start # w"
    and gw: "grid_path snake_body obs start w" and lw: "length w = n"
    by auto
  have pv: "distinct p" "set p \<subseteq> visited"
    using inv_paths [OF inv, of p] by simp_all
  have oldv: "last q \<in> visited" if "q \<in> set (A @ B)" for q
    using inv_end_visited [OF inv, of q] that by simp
  have ends: "last ` set (A @ B @ map (\<lambda>c. p @ [c]) news) = last ` set (A @ B) \<union> set news"
    by (auto simp: image_Un image_image)
  have c1: "\<forall>q \<in> set A. \<exists>w. q = start # w \<and> grid_path snake_body obs start w \<and> length w = n"
    using inv_A [OF inv] by simp
  have c2: "\<forall>q \<in> set (B @ map (\<lambda>c. p @ [c]) news).
              \<exists>w. q = start # w \<and> grid_path snake_body obs start w \<and> length w = Suc n"
  proof
    fix q
    assume "q \<in> set (B @ map (\<lambda>c. p @ [c]) news)"
    then consider "q \<in> set B" | c where "c \<in> set news" "q = p @ [c]" by auto
    then show "\<exists>w. q = start # w \<and> grid_path snake_body obs start w \<and> length w = Suc n"
    proof cases
      case 1
      then show ?thesis by (rule inv_B [OF inv])
    next
      case 2
      from 2(1) sn have "grid_step (last (start # w)) c" "free_cell snake_body obs c"
        unfolding p by simp_all
      with gw have "grid_path snake_body obs start (w @ [c])"
        by (simp add: grid_path_snoc)
      moreover have "q = start # (w @ [c])" using 2(2) p by simp
      moreover have "length (w @ [c]) = Suc n" using lw by simp
      ultimately show ?thesis by (intro exI [of _ "w @ [c]"] conjI)
    qed
  qed
  have c3: "\<forall>q \<in> set (A @ B @ map (\<lambda>c. p @ [c]) news).
              distinct q \<and> set q \<subseteq> visited \<union> set news"
  proof
    fix q
    assume "q \<in> set (A @ B @ map (\<lambda>c. p @ [c]) news)"
    then consider "q \<in> set (A @ B)" | c where "c \<in> set news" "q = p @ [c]" by auto
    then show "distinct q \<and> set q \<subseteq> visited \<union> set news"
    proof cases
      case 1
      then have "q \<in> set ((p # A) @ B)" by simp
      from inv_paths [OF inv this] show ?thesis by blast
    next
      case 2
      from 2(1) sn have "c \<notin> visited" by simp
      with pv have "c \<notin> set p" by blast
      with pv 2 show ?thesis by auto
    qed
  qed
  have c4: "distinct (map last (A @ B @ map (\<lambda>c. p @ [c]) news))"
  proof -
    have "distinct (map last ((p # A) @ B))" by (rule inv_ends [OF inv])
    then have d: "distinct (map last (A @ B))" by simp
    have m: "map last (map (\<lambda>c. p @ [c]) news) = news"
      by (induction news) simp_all
    have disj: "set (map last (A @ B)) \<inter> set news = {}"
    proof (rule ccontr)
      assume "set (map last (A @ B)) \<inter> set news \<noteq> {}"
      then obtain c where "c \<in> set (map last (A @ B))" "c \<in> set news" by blast
      then obtain q where "q \<in> set (A @ B)" "c = last q" by auto
      with oldv have "c \<in> visited" by simp
      moreover from \<open>c \<in> set news\<close> sn have "c \<notin> visited" by simp
      ultimately show False by simp
    qed
    have "distinct (map last (A @ B) @ news)"
      unfolding distinct_append by (intro conjI d dn disj)
    moreover have "map last (A @ B @ map (\<lambda>c. p @ [c]) news) = map last (A @ B) @ news"
      using m by simp
    ultimately show ?thesis by (simp only:)
  qed
  have c5: "\<forall>c. reach snake_body obs start n c \<longrightarrow> c \<in> visited \<union> set news"
    using inv_reach [OF inv] by blast
  have c6: "\<forall>q \<in> set (B @ map (\<lambda>c. p @ [c]) news). \<not> reach snake_body obs start n (last q)"
  proof
    fix q
    assume "q \<in> set (B @ map (\<lambda>c. p @ [c]) news)"
    then consider "q \<in> set B" | c where "c \<in> set news" "q = p @ [c]" by auto
    then show "\<not> reach snake_body obs start n (last q)"
    proof cases
      case 1
      then show ?thesis by (rule inv_far [OF inv])
    next
      case 2
      from 2(1) sn have "c \<notin> visited" by simp
      with inv_reach [OF inv, of c] have "\<not> reach snake_body obs start n c" by blast
      with 2(2) show ?thesis by simp
    qed
  qed
  have c7: "\<forall>c \<in> visited \<union> set news.
            c \<notin> last ` set (A @ B @ map (\<lambda>c. p @ [c]) news) \<longrightarrow>
            c \<noteq> target
            \<and> (\<forall>c'. grid_step c c' \<and> free_cell snake_body obs c' \<longrightarrow> c' \<in> visited \<union> set news)"
  proof (intro ballI impI)
    fix c
    assume cin: "c \<in> visited \<union> set news"
      and "c \<notin> last ` set (A @ B @ map (\<lambda>c. p @ [c]) news)"
    then have nq: "c \<notin> last ` set (A @ B)" and nn: "c \<notin> set news"
      unfolding ends by simp_all
    from cin nn have cv: "c \<in> visited" by simp
    show "c \<noteq> target
            \<and> (\<forall>c'. grid_step c c' \<and> free_cell snake_body obs c' \<longrightarrow> c' \<in> visited \<union> set news)"
    proof (cases "c = last p")
      case True
      have "c' \<in> visited \<union> set news"
        if "grid_step c c'" "free_cell snake_body obs c'" for c'
        using that sn True by (cases "c' \<in> visited") simp_all
      with nt True show ?thesis by blast
    next
      case False
      with nq have "c \<notin> last ` set ((p # A) @ B)" by simp
      from inv_done [OF inv cv this] show ?thesis by blast
    qed
  qed
  have c8: "\<forall>k < n. \<forall>c. reach snake_body obs start k c \<longrightarrow>
              c \<notin> last ` set (A @ B @ map (\<lambda>c. p @ [c]) news)"
  proof (intro allI impI)
    fix k c
    assume k: "k < n" and r: "reach snake_body obs start k c"
    from inv_near [OF inv k r] have "c \<notin> last ` set (A @ B)" by simp
    moreover have "c \<notin> set news"
    proof -
      from r k have "reach snake_body obs start n c" by (intro reach_mono [OF r]) simp
      then have "c \<in> visited" by (rule inv_reach [OF inv])
      with sn show ?thesis by simp
    qed
    ultimately show "c \<notin> last ` set (A @ B @ map (\<lambda>c. p @ [c]) news)"
      unfolding ends by simp
  qed
  show ?thesis
    unfolding bfs_inv_def by (intro conjI c1 c2 c3 c4 c5 c6 c7 c8)
qed

lemma bfs_inv_empty:
  assumes inv: "bfs_inv snake_body obs start target n [] [] visited"
    and "grid_path snake_body obs start w"
  shows "last (start # w) \<in> visited \<and> last (start # w) \<noteq> target"
  using assms(2)
proof (induction w rule: rev_induct)
  case Nil
  have v: "start \<in> visited" by (rule inv_reach [OF inv reach_start])
  have "start \<notin> last ` set ([] @ [])" by simp
  from inv_done [OF inv v this] v show ?case by simp
next
  case (snoc c w)
  from snoc.prems have gw: "grid_path snake_body obs start w"
    and st: "grid_step (last (start # w)) c" and fr: "free_cell snake_body obs c"
    by (simp_all add: grid_path_snoc)
  from snoc.IH [OF gw] have v0: "last (start # w) \<in> visited" by simp
  have e0: "last (start # w) \<notin> last ` set ([] @ [])" by simp
  from inv_done [OF inv v0 e0] st fr have v: "c \<in> visited" by blast
  have "c \<notin> last ` set ([] @ [])" by simp
  from inv_done [OF inv v this] v show ?case by simp
qed

lemma bfs_inv_front:
  assumes inv: "bfs_inv snake_body obs start target n A B visited" and q: "A @ B = p # rest"
  obtains n' A' B' where "bfs_inv snake_body obs start target n' (p # A') B' visited"
    and "rest = A' @ B'"
proof (cases A)
  case Nil
  with q have B: "B = p # rest" by simp
  from inv Nil have "bfs_inv snake_body obs start target (Suc n) B [] visited"
    by (simp add: bfs_inv_shift)
  then have "bfs_inv snake_body obs start target (Suc n) (p # rest) [] visited"
    unfolding B .
  then show thesis by (rule that) simp
next
  case (Cons a A')
  with q have "a = p" "A' @ B = rest" by simp_all
  with inv Cons have "bfs_inv snake_body obs start target n (p # A') B visited"
    and "rest = A' @ B"
    by simp_all
  then show thesis by (rule that)
qed

lemma bfs_loop_correct_aux:
  "bfs_inv snake_body obs start target n A B visited \<Longrightarrow> queue = A @ B \<Longrightarrow>
     \<exists>path. bfs_loop target snake_body obs queue visited = Inr path
       \<and> bfs_answer snake_body obs start target path"
proof (induction target snake_body obs queue visited arbitrary: n A B rule: bfs_loop.induct)
  case (1 target snake_body obs queue visited)
  show ?case
  proof (cases queue)
    case Nil
    with "1.prems" have inv: "bfs_inv snake_body obs start target n [] [] visited" by simp
    have nex: "\<not> (\<exists>w. grid_path snake_body obs start w \<and> last (start # w) = target)"
      using bfs_inv_empty [OF inv] by blast
    have "bfs_answer snake_body obs start target []"
      unfolding bfs_answer_def by (simp only: nex if_False)
    then show ?thesis unfolding Nil bfs_loop_Nil by simp
  next
    case (Cons p rest)
    from "1.prems" Cons have "A @ B = p # rest" by simp
    from bfs_inv_front [OF "1.prems"(1) this]
    obtain n' A' B' where inv: "bfs_inv snake_body obs start target n' (p # A') B' visited"
      and rest: "rest = A' @ B'" .
    from inv_A [OF inv, of p] obtain w where p: "p = start # w"
      and gw: "grid_path snake_body obs start w" and lw: "length w = n'"
      by auto
    show ?thesis
    proof (cases "last p = target")
      case True
      have res: "bfs_loop target snake_body obs queue visited = Inr w"
        unfolding Cons bfs_loop_Cons using True p by simp
      have ex: "\<exists>w. grid_path snake_body obs start w \<and> last (start # w) = target"
        using gw True p by blast
      have d: "distinct (start # w)"
        using inv_paths [OF inv, of p] p by simp
      have mn: "length w \<le> length w'"
        if w': "grid_path snake_body obs start w'" "last (start # w') = target" for w'
      proof (rule ccontr)
        assume "\<not> length w \<le> length w'"
        then have k: "length w' < n'" using lw by simp
        from w' have "reach snake_body obs start (length w') target"
          by (intro reachI [of _ _ _ w']) simp_all
        from inv_near [OF inv k this] True show False by simp
      qed
      have "bfs_answer snake_body obs start target w"
        unfolding bfs_answer_def using ex gw d True p mn by simp
      with res show ?thesis by simp
    next
      case False
      from fold_bfs_visit [of snake_body obs p "[UP, DOWN, LEFT, RIGHT]" rest visited]
      obtain news where f: "fold (bfs_visit snake_body obs p) [UP, DOWN, LEFT, RIGHT] (rest, visited)
            = (rest @ map (\<lambda>c. p @ [c]) news, visited \<union> set news)"
        and dn: "distinct news"
        and sn0: "set news = {c. c \<in> (\<lambda>d. (fst (last p) + fst d, snd (last p) + snd d))
                                  ` set [UP, DOWN, LEFT, RIGHT]
                      \<and> free_cell snake_body obs c \<and> c \<notin> visited}"
        by (elim exE conjE)
      have sn: "set news = {c. grid_step (last p) c \<and> free_cell snake_body obs c \<and> c \<notin> visited}"
        unfolding sn0 grid_step_def by simp
      have inv': "bfs_inv snake_body obs start target n' A' (B' @ map (\<lambda>c. p @ [c]) news)
           (visited \<union> set news)"
        by (rule bfs_inv_step [OF inv False dn sn])
      have pne: "p \<noteq> []" using p by simp
      have q': "rest @ map (\<lambda>c. p @ [c]) news = A' @ B' @ map (\<lambda>c. p @ [c]) news"
        using rest by simp
      from "1.IH" [OF Cons pne False f [symmetric] inv' q']
      obtain path where "bfs_loop target snake_body obs (rest @ map (\<lambda>c. p @ [c]) news)
             (visited \<union> set news) = Inr path"
        and "bfs_answer snake_body obs start target path"
        by blast
      moreover have "bfs_loop target snake_body obs queue visited
          = bfs_loop target snake_body obs (rest @ map (\<lambda>c. p @ [c]) news) (visited \<union> set news)"
        unfolding Cons bfs_loop_Cons using pne False f by simp
      ultimately show ?thesis by simp
    qed
  qed
qed

subsection \<open>The order of the directions decides between shortest paths\<close>

lemma length_moves: "length (moves a w) = length w"
  by (induction w arbitrary: a) simp_all

lemma moves_snoc:
  "moves a (w @ [c])
     = moves a w @ [direction_rank (fst c - fst (last (a # w)), snd c - snd (last (a # w)))]"
  by (induction w arbitrary: a) simp_all

lemma grid_step_cases:
  assumes "grid_step a c"
  obtains d where "d \<in> set [UP, DOWN, LEFT, RIGHT]" and "c = (fst a + fst d, snd a + snd d)"
proof -
  from assms have "c \<in> (\<lambda>d. (fst a + fst d, snd a + snd d)) ` set [UP, DOWN, LEFT, RIGHT]"
    unfolding grid_step_def by (simp only: set_map)
  then show thesis by (rule imageE) (rule that)
qed

lemma grid_step_diff:
  assumes "grid_step a c"
  shows "(fst c - fst a, snd c - snd a) \<in> set [UP, DOWN, LEFT, RIGHT]"
proof -
  from assms obtain d where d: "d \<in> set [UP, DOWN, LEFT, RIGHT]"
    and c: "c = (fst a + fst d, snd a + snd d)"
    by (rule grid_step_cases)
  have "(fst c - fst a, snd c - snd a) = d" unfolding c by simp
  with d show ?thesis by (simp only:)
qed

lemma direction_rank_values:
  "direction_rank UP = 0" "direction_rank DOWN = 1" "direction_rank LEFT = 2"
  "direction_rank RIGHT = 3"
  by (simp_all add: direction_rank_def UP_def DOWN_def LEFT_def RIGHT_def)

lemma direction_rank_inj:
  assumes "d \<in> set [UP, DOWN, LEFT, RIGHT]" and "e \<in> set [UP, DOWN, LEFT, RIGHT]"
    and "direction_rank d = direction_rank e"
  shows "d = e"
proof -
  from assms(1) consider "d = UP" | "d = DOWN" | "d = LEFT" | "d = RIGHT" by auto
  then show ?thesis
  proof cases
    case 1
    with assms(2,3) show ?thesis by (auto simp: direction_rank_values)
  next
    case 2
    with assms(2,3) show ?thesis by (auto simp: direction_rank_values)
  next
    case 3
    with assms(2,3) show ?thesis by (auto simp: direction_rank_values)
  next
    case 4
    with assms(2,3) show ?thesis by (auto simp: direction_rank_values)
  qed
qed

lemma moves_inj:
  assumes "grid_path snake_body obs a w1" and "grid_path snake_body obs a w2"
    and "moves a w1 = moves a w2"
  shows "w1 = w2"
  using assms
proof (induction w1 arbitrary: a w2)
  case Nil
  then show ?case by (cases w2) simp_all
next
  case (Cons x xs)
  from Cons.prems(3) obtain y ys where w2: "w2 = y # ys" by (cases w2) simp_all
  from Cons.prems w2 have r: "direction_rank (fst x - fst a, snd x - snd a)
      = direction_rank (fst y - fst a, snd y - snd a)" and m: "moves x xs = moves y ys"
    and sx: "grid_step a x" and sy: "grid_step a y"
    and px: "grid_path snake_body obs x xs" and py: "grid_path snake_body obs y ys"
    by simp_all
  from direction_rank_inj [OF grid_step_diff [OF sx] grid_step_diff [OF sy] r]
  have "x = y" by (simp add: prod_eq_iff)
  with Cons.IH [OF px] py m show ?case unfolding w2 by simp
qed

lemma lex_append_less:
  fixes xs ys :: "nat list"
  assumes "xs < ys" and "length xs = length ys"
  shows "xs @ us < ys @ vs"
  using assms unfolding list_less_def by (simp add: lexord_sufI)

lemma lex_snoc_less:
  fixes xs :: "nat list"
  assumes "i < j"
  shows "xs @ [i] < xs @ [j]"
  unfolding list_less_def using assms by (simp add: lexord_append_leftI)

lemma fold_bfs_visit_filter:
  assumes "distinct (map (\<lambda>d. (fst (last p) + fst d, snd (last p) + snd d)) ds)"
  shows "fold (bfs_visit snake_body obs p) ds (q, v)
       = (q @ map (\<lambda>c. p @ [c])
                (filter (\<lambda>c. free_cell snake_body obs c \<and> c \<notin> v)
                   (map (\<lambda>d. (fst (last p) + fst d, snd (last p) + snd d)) ds)),
          v \<union> set (filter (\<lambda>c. free_cell snake_body obs c \<and> c \<notin> v)
                   (map (\<lambda>d. (fst (last p) + fst d, snd (last p) + snd d)) ds)))"
  using assms
proof (induction ds arbitrary: q v)
  case Nil
  show ?case by simp
next
  case (Cons d ds)
  let ?f = "\<lambda>d. (fst (last p) + fst d, snd (last p) + snd d)"
  let ?c = "?f d"
  from Cons.prems have nin: "?c \<notin> set (map ?f ds)" and dist: "distinct (map ?f ds)"
    by simp_all
  show ?case
  proof (cases "free_cell snake_body obs ?c \<and> ?c \<notin> v")
    case True
    have same: "filter (\<lambda>c. free_cell snake_body obs c \<and> c \<notin> insert ?c v) (map ?f ds)
        = filter (\<lambda>c. free_cell snake_body obs c \<and> c \<notin> v) (map ?f ds)"
      using nin by (intro filter_cong) auto
    from True have "bfs_visit snake_body obs p d (q, v) = (q @ [p @ [?c]], insert ?c v)"
      by (simp add: bfs_visit_eq)
    then have "fold (bfs_visit snake_body obs p) (d # ds) (q, v)
        = fold (bfs_visit snake_body obs p) ds (q @ [p @ [?c]], insert ?c v)"
      by simp
    also note Cons.IH [OF dist, of "q @ [p @ [?c]]" "insert ?c v"]
    finally show ?thesis unfolding same using True by simp
  next
    case False
    have "bfs_visit snake_body obs p d (q, v) = (q, v)"
      unfolding bfs_visit_eq using False by (rule if_not_P)
    then have "fold (bfs_visit snake_body obs p) (d # ds) (q, v)
        = fold (bfs_visit snake_body obs p) ds (q, v)"
      by simp
    also note Cons.IH [OF dist, of q v]
    finally show ?thesis using False by auto
  qed
qed

lemma four_neighbours_distinct:
  "distinct (map (\<lambda>d. (fst (a :: coord) + fst d, snd a + snd d)) [UP, DOWN, LEFT, RIGHT])"
  by (simp add: UP_def DOWN_def LEFT_def RIGHT_def)

lemma order_A:
  assumes "bfs_order snake_body obs start A B"
  shows "sorted_wrt (<) (map (\<lambda>p. moves start (tl p)) A)"
  using assms unfolding bfs_order_def by (elim conjE)

lemma order_B:
  assumes "bfs_order snake_body obs start A B"
  shows "sorted_wrt (<) (map (\<lambda>p. moves start (tl p)) B)"
  using assms unfolding bfs_order_def by (elim conjE)

lemma order_AB:
  assumes "bfs_order snake_body obs start A B" and "a \<in> set A" and "b \<in> set B"
  shows "butlast (moves start (tl b)) < moves start (tl a)"
proof -
  from assms(1) have "\<forall>a \<in> set A. \<forall>b \<in> set B. butlast (moves start (tl b)) < moves start (tl a)"
    unfolding bfs_order_def by (elim conjE)
  with assms(2,3) show ?thesis by blast
qed

lemma order_least:
  assumes "bfs_order snake_body obs start A B" and "p \<in> set (A @ B)"
    and "grid_path snake_body obs start w" and "last (start # w) = last p"
    and "length w = length (tl p)"
  shows "moves start (tl p) \<le> moves start w"
proof -
  from assms(1) have "\<forall>p \<in> set (A @ B). \<forall>w. grid_path snake_body obs start w
      \<and> last (start # w) = last p \<and> length w = length (tl p)
      \<longrightarrow> moves start (tl p) \<le> moves start w"
    unfolding bfs_order_def by (elim conjE)
  with assms(2-) show ?thesis by blast
qed

lemma bfs_order_init: "bfs_order snake_body obs start [[start]] []"
  unfolding bfs_order_def by simp

lemma bfs_order_shift:
  assumes "bfs_order snake_body obs start [] B"
  shows "bfs_order snake_body obs start B []"
proof -
  have c1: "sorted_wrt (<) (map (\<lambda>p. moves start (tl p)) B)" by (rule order_B [OF assms])
  have c2: "sorted_wrt (<) (map (\<lambda>p. moves start (tl p)) [])" by simp
  have c3: "\<forall>a \<in> set B. \<forall>b \<in> set []. butlast (moves start (tl b)) < moves start (tl a)"
    by simp
  have c4: "\<forall>p \<in> set (B @ []). \<forall>w. grid_path snake_body obs start w \<and> last (start # w) = last p
              \<and> length w = length (tl p) \<longrightarrow> moves start (tl p) \<le> moves start w"
  proof (intro ballI allI impI)
    fix p w
    assume "p \<in> set (B @ [])"
      and w: "grid_path snake_body obs start w \<and> last (start # w) = last p
              \<and> length w = length (tl p)"
    then have "p \<in> set ([] @ B)" by simp
    from order_least [OF assms this] w show "moves start (tl p) \<le> moves start w" by blast
  qed
  show ?thesis unfolding bfs_order_def by (intro conjI c1 c2 c3 c4)
qed

lemma bfs_order_step:
  assumes inv: "bfs_inv snake_body obs start target n (p # A) B visited"
    and ord: "bfs_order snake_body obs start (p # A) B"
    and news: "news = filter (\<lambda>c. free_cell snake_body obs c \<and> c \<notin> visited)
        (map (\<lambda>d. (fst (last p) + fst d, snd (last p) + snd d)) [UP, DOWN, LEFT, RIGHT])"
  shows "bfs_order snake_body obs start A (B @ map (\<lambda>c. p @ [c]) news)"
proof -
  from inv_A [OF inv, of p] obtain w where p: "p = start # w"
    and gw: "grid_path snake_body obs start w" and lw: "length w = n"
    by auto
  have lp: "last (start # w) = last p" unfolding p ..
  have child: "moves start (tl (p @ [c]))
      = moves start (tl p) @ [direction_rank (fst c - fst (last p), snd c - snd (last p))]" for c
    unfolding p by (simp add: moves_snoc)
  have lenp: "length (moves start (tl p)) = n" unfolding p using lw by (simp add: length_moves)
  have in_news: "free_cell snake_body obs c \<and> c \<notin> visited \<and> grid_step (last p) c"
    if "c \<in> set news" for c
    using that unfolding news grid_step_def set_filter by blast
  have sA: "sorted_wrt (<) (moves start (tl p) # map (\<lambda>p. moves start (tl p)) A)"
    using order_A [OF ord] by simp
  have first: "moves start (tl p) < moves start (tl a)" if "a \<in> set A" for a
    using sA that by auto
  have c1: "sorted_wrt (<) (map (\<lambda>p. moves start (tl p)) A)"
    using sA by simp
  have kids: "sorted_wrt (<) (map (\<lambda>p. moves start (tl p)) (map (\<lambda>c. p @ [c]) news))"
  proof -
    have "sorted_wrt (\<lambda>c c'. moves start (tl (p @ [c])) < moves start (tl (p @ [c'])))
        (map (\<lambda>d. (fst (last p) + fst d, snd (last p) + snd d)) [UP, DOWN, LEFT, RIGHT])"
      by (simp add: child direction_rank_values lex_snoc_less)
    then have "sorted_wrt (\<lambda>c c'. moves start (tl (p @ [c])) < moves start (tl (p @ [c']))) news"
      unfolding news by (rule sorted_wrt_filter)
    then show ?thesis by (simp add: sorted_wrt_map o_def)
  qed
  have cross: "moves start (tl b) < moves start (tl (p @ [c]))" if b: "b \<in> set B" for b c
  proof -
    from inv_B [OF inv b] obtain wb where "b = start # wb" "length wb = Suc n" by auto
    then have lb: "length (moves start (tl b)) = Suc n" by (simp add: length_moves)
    then have ne: "moves start (tl b) \<noteq> []" by auto
    have "butlast (moves start (tl b)) < moves start (tl p)"
      by (rule order_AB [OF ord _ b]) simp
    moreover have "length (butlast (moves start (tl b))) = length (moves start (tl p))"
      using lb lenp by simp
    ultimately have "butlast (moves start (tl b)) @ [last (moves start (tl b))]
        < moves start (tl p) @ [direction_rank (fst c - fst (last p), snd c - snd (last p))]"
      by (rule lex_append_less)
    then show ?thesis unfolding child using ne by simp
  qed
  have c2: "sorted_wrt (<) (map (\<lambda>p. moves start (tl p)) (B @ map (\<lambda>c. p @ [c]) news))"
    using order_B [OF ord] kids cross by (auto simp: sorted_wrt_append)
  have c3: "\<forall>a \<in> set A. \<forall>b \<in> set (B @ map (\<lambda>c. p @ [c]) news).
      butlast (moves start (tl b)) < moves start (tl a)"
  proof (intro ballI)
    fix a b
    assume a: "a \<in> set A" and "b \<in> set (B @ map (\<lambda>c. p @ [c]) news)"
    then consider "b \<in> set B" | c where "c \<in> set news" "b = p @ [c]" by auto
    then show "butlast (moves start (tl b)) < moves start (tl a)"
    proof cases
      case 1
      show ?thesis by (rule order_AB [OF ord _ 1]) (simp add: a)
    next
      case 2
      show ?thesis unfolding 2(2) child using first [OF a] by simp
    qed
  qed
  have c4: "\<forall>q \<in> set (A @ B @ map (\<lambda>c. p @ [c]) news). \<forall>v. grid_path snake_body obs start v
      \<and> last (start # v) = last q \<and> length v = length (tl q)
      \<longrightarrow> moves start (tl q) \<le> moves start v"
  proof (intro ballI allI impI)
    fix q v
    assume q: "q \<in> set (A @ B @ map (\<lambda>c. p @ [c]) news)"
      and v: "grid_path snake_body obs start v \<and> last (start # v) = last q
          \<and> length v = length (tl q)"
    from q consider "q \<in> set (A @ B)" | c where "c \<in> set news" "q = p @ [c]" by auto
    then show "moves start (tl q) \<le> moves start v"
    proof cases
      case 1
      then have "q \<in> set ((p # A) @ B)" by simp
      from order_least [OF ord this] v show ?thesis by blast
    next
      case 2
      from in_news [OF 2(1)] have cn: "c \<notin> visited" by simp
      from v 2(2) have gv: "grid_path snake_body obs start v" and lv: "last (start # v) = c"
        and nv: "length v = Suc n"
        unfolding p using lw by simp_all
      from nv have "v \<noteq> []" by auto
      then obtain v0 c' where v0: "v = v0 @ [c']" by (cases v rule: rev_cases) auto
      with lv have c': "c' = c" by simp
      from gv have g0: "grid_path snake_body obs start v0"
        and st: "grid_step (last (start # v0)) c" and fr: "free_cell snake_body obs c"
        unfolding v0 c' grid_path_snoc by simp_all
      from nv v0 have n0: "length v0 = n" by simp
      let ?u = "last (start # v0)"
      have ru: "reach snake_body obs start n ?u"
        using g0 n0 by (intro reachI [of _ _ _ v0]) simp_all
      then have uv: "?u \<in> visited" by (rule inv_reach [OF inv])
      have "?u \<in> last ` set ((p # A) @ B)"
      proof (rule ccontr)
        assume "?u \<notin> last ` set ((p # A) @ B)"
        from inv_done [OF inv uv this] st fr have "c \<in> visited" by blast
        with cn show False ..
      qed
      then obtain q0 where q0: "q0 \<in> set ((p # A) @ B)" and lq0: "last q0 = ?u"
        by (elim imageE) (rule that, assumption, rule sym)
      have "q0 \<notin> set B"
      proof
        assume "q0 \<in> set B"
        from inv_far [OF inv this] ru lq0 show False by simp
      qed
      with q0 have qA: "q0 \<in> set (p # A)" by simp
      from inv_A [OF inv qA] obtain w0 where "q0 = start # w0" "length w0 = n" by auto
      then have "length v0 = length (tl q0)" using n0 by simp
      from order_least [OF ord q0 g0 lq0 [symmetric] this]
      have le0: "moves start (tl q0) \<le> moves start v0" .
      have "moves start (tl p) \<le> moves start (tl q0)"
      proof (cases "q0 = p")
        case True
        then show ?thesis by simp
      next
        case False
        with qA have "q0 \<in> set A" by simp
        from first [OF this] show ?thesis by simp
      qed
      from this le0 have le: "moves start (tl p) \<le> moves start v0" by (rule order_trans)
      have mv: "moves start v = moves start v0
          @ [direction_rank (fst c - fst ?u, snd c - snd ?u)]"
        unfolding v0 c' by (rule moves_snoc)
      show ?thesis
      proof (cases "moves start (tl p) = moves start v0")
        case True
        then have "moves start w = moves start v0" unfolding p by simp
        from moves_inj [OF gw g0 this] have "w = v0" .
        then have "?u = last p" unfolding p by simp
        then show ?thesis unfolding 2(2) child mv using True by simp
      next
        case False
        with le have "moves start (tl p) < moves start v0" by simp
        moreover have "length (moves start (tl p)) = length (moves start v0)"
          using lenp n0 by (simp add: length_moves)
        ultimately have "moves start (tl p)
              @ [direction_rank (fst c - fst (last p), snd c - snd (last p))]
            < moves start v0 @ [direction_rank (fst c - fst ?u, snd c - snd ?u)]"
          by (rule lex_append_less)
        then show ?thesis unfolding 2(2) child mv by simp
      qed
    qed
  qed
  show ?thesis unfolding bfs_order_def by (intro conjI c1 c2 c3 c4)
qed

lemma bfs_front:
  assumes inv: "bfs_inv snake_body obs start target n A B visited"
    and ord: "bfs_order snake_body obs start A B" and q: "A @ B = p # rest"
  obtains n' A' B' where "bfs_inv snake_body obs start target n' (p # A') B' visited"
    and "bfs_order snake_body obs start (p # A') B'" and "rest = A' @ B'"
proof (cases A)
  case Nil
  with q have B: "B = p # rest" by simp
  from inv Nil have "bfs_inv snake_body obs start target (Suc n) B [] visited"
    by (simp add: bfs_inv_shift)
  then have i: "bfs_inv snake_body obs start target (Suc n) (p # rest) [] visited"
    unfolding B .
  from ord Nil have "bfs_order snake_body obs start B []"
    by (simp add: bfs_order_shift)
  then have o: "bfs_order snake_body obs start (p # rest) []"
    unfolding B .
  from i o show thesis by (rule that) simp
next
  case (Cons a A')
  with q have "a = p" "A' @ B = rest" by simp_all
  with inv ord Cons have "bfs_inv snake_body obs start target n (p # A') B visited"
    and "bfs_order snake_body obs start (p # A') B" and "rest = A' @ B"
    by simp_all
  then show thesis by (rule that)
qed

lemma bfs_loop_least_aux:
  "bfs_inv snake_body obs start target n A B visited \<Longrightarrow>
   bfs_order snake_body obs start A B \<Longrightarrow> queue = A @ B \<Longrightarrow>
     \<exists>path. bfs_loop target snake_body obs queue visited = Inr path
       \<and> bfs_answer snake_body obs start target path
       \<and> (\<forall>w. grid_path snake_body obs start w \<and> last (start # w) = target
               \<and> length w = length path \<longrightarrow> moves start path \<le> moves start w)"
proof (induction target snake_body obs queue visited arbitrary: n A B rule: bfs_loop.induct)
  case (1 target snake_body obs queue visited)
  from "1.prems"(1) [THEN bfs_loop_correct_aux, OF "1.prems"(3)]
  obtain path0 where r0: "bfs_loop target snake_body obs queue visited = Inr path0"
    and a0: "bfs_answer snake_body obs start target path0"
    by (elim exE conjE)
  show ?case
  proof (cases queue)
    case Nil
    with "1.prems" have inv: "bfs_inv snake_body obs start target n [] [] visited" by simp
    have nex: "\<not> (grid_path snake_body obs start w \<and> last (start # w) = target)" for w
      using bfs_inv_empty [OF inv, of w] by blast
    have "\<forall>w. grid_path snake_body obs start w \<and> last (start # w) = target
               \<and> length w = length path0 \<longrightarrow> moves start path0 \<le> moves start w"
      using nex by blast
    with r0 a0 show ?thesis by (intro exI [of _ path0] conjI)
  next
    case (Cons p rest)
    from "1.prems" Cons have "A @ B = p # rest" by simp
    from bfs_front [OF "1.prems"(1,2) this]
    obtain n' A' B' where inv: "bfs_inv snake_body obs start target n' (p # A') B' visited"
      and ord: "bfs_order snake_body obs start (p # A') B'"
      and rest: "rest = A' @ B'" .
    from inv_A [OF inv, of p] obtain w where p: "p = start # w"
      by auto
    show ?thesis
    proof (cases "last p = target")
      case True
      have res: "bfs_loop target snake_body obs queue visited = Inr w"
        unfolding Cons bfs_loop_Cons using True p by simp
      with r0 have w0: "path0 = w" by simp
      have pin: "p \<in> set ((p # A') @ B')" by simp
      have "moves start w \<le> moves start v"
        if "grid_path snake_body obs start v" "last (start # v) = target" "length v = length w"
        for v
        using order_least [OF ord pin that(1), unfolded p] that(2,3) True p by simp
      then have "\<forall>v. grid_path snake_body obs start v \<and> last (start # v) = target
               \<and> length v = length path0 \<longrightarrow> moves start path0 \<le> moves start v"
        unfolding w0 by blast
      with r0 a0 show ?thesis by (intro exI [of _ path0] conjI)
    next
      case False
      define news where "news = filter (\<lambda>c. free_cell snake_body obs c \<and> c \<notin> visited)
        (map (\<lambda>d. (fst (last p) + fst d, snd (last p) + snd d)) [UP, DOWN, LEFT, RIGHT])"
      have f: "fold (bfs_visit snake_body obs p) [UP, DOWN, LEFT, RIGHT] (rest, visited)
            = (rest @ map (\<lambda>c. p @ [c]) news, visited \<union> set news)"
        unfolding news_def by (rule fold_bfs_visit_filter [OF four_neighbours_distinct])
      have dn: "distinct news"
        unfolding news_def by (rule distinct_filter [OF four_neighbours_distinct])
      have sn: "set news = {c. grid_step (last p) c \<and> free_cell snake_body obs c \<and> c \<notin> visited}"
        unfolding news_def grid_step_def set_filter by blast
      have inv': "bfs_inv snake_body obs start target n' A' (B' @ map (\<lambda>c. p @ [c]) news)
           (visited \<union> set news)"
        by (rule bfs_inv_step [OF inv False dn sn])
      have ord': "bfs_order snake_body obs start A' (B' @ map (\<lambda>c. p @ [c]) news)"
        by (rule bfs_order_step [OF inv ord news_def])
      have pne: "p \<noteq> []" using p by simp
      have q': "rest @ map (\<lambda>c. p @ [c]) news = A' @ B' @ map (\<lambda>c. p @ [c]) news"
        using rest by simp
      have "bfs_loop target snake_body obs queue visited
          = bfs_loop target snake_body obs (rest @ map (\<lambda>c. p @ [c]) news) (visited \<union> set news)"
        unfolding Cons bfs_loop_Cons using pne False f by simp
      with "1.IH" [OF Cons pne False f [symmetric] inv' ord' q']
      show ?thesis by simp
    qed
  qed
qed

text \<open>C9: the result of the search is fixed by its arguments and by the order UP, DOWN,
  LEFT, RIGHT in which a cell's neighbours are tried. The search always returns a list.
  If some walk from the start reaches the target through cells that pass the search's
  test, the result is such a walk to the target, and every other such walk to the target
  is longer, or as long and later in the lexicographic order of its directions, where
  UP comes before DOWN, DOWN before LEFT and LEFT before RIGHT. Otherwise the result is
  the empty list. So no two calls with the same arguments differ, and among shortest
  paths the one that is first in this order is returned.\<close>

theorem bfs_pathfinding_tie_break:
  "\<exists>path. bfs_pathfinding start target snake_body obs = Inr path \<and>
     (if \<exists>w. grid_path snake_body obs start w \<and> last (start # w) = target
      then grid_path snake_body obs start path \<and> last (start # path) = target
           \<and> (\<forall>w. grid_path snake_body obs start w \<and> last (start # w) = target \<and> w \<noteq> path
                  \<longrightarrow> length path < length w
                     \<or> (length path = length w \<and> moves start path < moves start w))
      else path = [])"
proof -
  have "[[start]] = [[start]] @ []" by simp
  from bfs_loop_least_aux [OF bfs_inv_init bfs_order_init this]
  obtain path where r: "bfs_pathfinding start target snake_body obs = Inr path"
    and a: "bfs_answer snake_body obs start target path"
    and l: "\<And>w. grid_path snake_body obs start w \<Longrightarrow> last (start # w) = target
               \<Longrightarrow> length w = length path \<Longrightarrow> moves start path \<le> moves start w"
    unfolding bfs_pathfinding_def by blast
  show ?thesis
  proof (cases "\<exists>w. grid_path snake_body obs start w \<and> last (start # w) = target")
    case False
    with a have pe: "path = []" unfolding bfs_answer_def by simp
    show ?thesis by (rule exI [of _ path]) (simp only: r False if_False pe simp_thms)
  next
    case True
    with a have g: "grid_path snake_body obs start path" and e: "last (start # path) = target"
      and m: "\<And>w. grid_path snake_body obs start w \<Longrightarrow> last (start # w) = target
                 \<Longrightarrow> length path \<le> length w"
      unfolding bfs_answer_def by simp_all
    have "length path < length w
        \<or> (length path = length w \<and> moves start path < moves start w)"
      if w: "grid_path snake_body obs start w" "last (start # w) = target" "w \<noteq> path" for w
    proof (cases "length path = length w")
      case False
      with m [OF w(1,2)] show ?thesis by simp
    next
      case True
      from l [OF w(1,2) True [symmetric]] have "moves start path \<le> moves start w" .
      moreover have "moves start path \<noteq> moves start w"
        using moves_inj [OF g w(1)] w(3) by blast
      ultimately show ?thesis using True by simp
    qed
    then have all: "\<forall>w. grid_path snake_body obs start w \<and> last (start # w) = target \<and> w \<noteq> path
                  \<longrightarrow> length path < length w
                     \<or> (length path = length w \<and> moves start path < moves start w)"
      by blast
    show ?thesis by (rule exI [of _ path]) (simp only: r True if_True g e simp_thms, rule all)
  qed
qed


theorem bfs_pathfinding_tie_break_witness:
  "bfs_pathfinding (5, 5) (7, 5) [] [(6, 5)] = Inr [(5, 4), (6, 4), (7, 4), (7, 5)]
   \<and> grid_path [] [(6, 5)] (5, 5) [(5, 6), (6, 6), (7, 6), (7, 5)]
   \<and> moves (5, 5) [(5, 4), (6, 4), (7, 4), (7, 5)] = [0, 3, 3, 1]
   \<and> moves (5, 5) [(5, 6), (6, 6), (7, 6), (7, 5)] = [1, 3, 3, 0]
   \<and> moves (5, 5) [(5, 4), (6, 4), (7, 4), (7, 5)] < moves (5, 5) [(5, 6), (6, 6), (7, 6), (7, 5)]
   \<and> bfs_pathfinding (5, 5) (4, 6) [] [] = Inr [(5, 6), (4, 6)]
   \<and> bfs_pathfinding (5, 5) (5, 3) [] [(5, 4)] = Inr [(4, 5), (4, 4), (4, 3), (5, 3)]
   \<and> bfs_pathfinding (5, 5) (6, 4) [] [] = Inr [(5, 4), (6, 4)]"
proof -
  have e1: "bfs_pathfinding (5, 5) (7, 5) [] [(6, 5)] = Inr [(5, 4), (6, 4), (7, 4), (7, 5)]"
    by (simp add: bfs_pathfinding_def bfs_loop_Cons bfs_loop_Nil bfs_visit_def
        UP_def DOWN_def LEFT_def RIGHT_def GRID_SIZE_def)
  have e2: "bfs_pathfinding (5, 5) (4, 6) [] [] = Inr [(5, 6), (4, 6)]"
    by (simp add: bfs_pathfinding_def bfs_loop_Cons bfs_loop_Nil bfs_visit_def
        UP_def DOWN_def LEFT_def RIGHT_def GRID_SIZE_def)
  have e3: "bfs_pathfinding (5, 5) (5, 3) [] [(5, 4)] = Inr [(4, 5), (4, 4), (4, 3), (5, 3)]"
    by (simp add: bfs_pathfinding_def bfs_loop_Cons bfs_loop_Nil bfs_visit_def
        UP_def DOWN_def LEFT_def RIGHT_def GRID_SIZE_def)
  have e4: "bfs_pathfinding (5, 5) (6, 4) [] [] = Inr [(5, 4), (6, 4)]"
    by (simp add: bfs_pathfinding_def bfs_loop_Cons bfs_loop_Nil bfs_visit_def
        UP_def DOWN_def LEFT_def RIGHT_def GRID_SIZE_def)
  have g: "grid_path [] [(6, 5)] (5, 5) [(5, 6), (6, 6), (7, 6), (7, 5)]"
    by (simp add: grid_step_def free_cell_def UP_def DOWN_def LEFT_def RIGHT_def GRID_SIZE_def)
  have m1: "moves (5, 5) [(5, 4), (6, 4), (7, 4), (7, 5)] = [0, 3, 3, 1]"
    by (simp add: direction_rank_def UP_def DOWN_def LEFT_def RIGHT_def)
  have m2: "moves (5, 5) [(5, 6), (6, 6), (7, 6), (7, 5)] = [1, 3, 3, 0]"
    by (simp add: direction_rank_def UP_def DOWN_def LEFT_def RIGHT_def)
  let ?P = "[(5, 4), (6, 4), (7, 4), (7, 5)] :: coord list"
  let ?Q = "[(5, 6), (6, 6), (7, 6), (7, 5)] :: coord list"
  have l: "last ((5, 5) # ?Q) = (7, 5)" and ne: "?Q \<noteq> ?P"
    by simp_all
  from g l have ex: "\<exists>w. grid_path [] [(6, 5)] (5, 5) w \<and> last ((5, 5) # w) = (7, 5)"
    by (intro exI [of _ ?Q] conjI)
  from bfs_pathfinding_tie_break [of "(5, 5)" "(7, 5)" "[]" "[(6, 5)]"]
  have "\<forall>w. grid_path [] [(6, 5)] (5, 5) w \<and> last ((5, 5) # w) = (7, 5) \<and> w \<noteq> ?P
        \<longrightarrow> length ?P < length w
          \<or> (length ?P = length w \<and> moves (5, 5) ?P < moves (5, 5) w)"
    unfolding e1 by (simp only: ex if_True sum.inject ex_simps simp_thms) blast
  then have "grid_path [] [(6, 5)] (5, 5) ?Q \<and> last ((5, 5) # ?Q) = (7, 5) \<and> ?Q \<noteq> ?P
      \<longrightarrow> length ?P < length ?Q
        \<or> (length ?P = length ?Q \<and> moves (5, 5) ?P < moves (5, 5) ?Q)"
    by (rule spec)
  with g l ne have lt: "moves (5, 5) ?P < moves (5, 5) ?Q"
    by simp
  show ?thesis by (intro conjI e1 g m1 m2 lt e2 e3 e4)
qed

subsection \<open>A body cell that the search enters\<close>

text \<open>C2: the search does not keep out of every cell that it is given as blocked. It
  tests a neighbour against \<open>snake_body[:-1]\<close>, so the last cell of the list it is
  passed is entered: with the cell \<open>(0, 1)\<close> passed as the only body cell, the path from
  \<open>(0, 0)\<close> to \<open>(0, 2)\<close> runs through it. The game loop passes
  \<open>snake.positions[:-1]\<close>, so the segment before the tail is not avoided: for the
  five-segment snake below with the food at \<open>(7, 5)\<close> the search returns the path
  through the segment \<open>(6, 5)\<close>, where the search with all five segments passed
  returns the path of four steps around it, and the iteration that switches the autopilot
  on follows the first step of the path into that segment and ends the game.\<close>

theorem bfs_enters_passed_body_cell:
  "bfs_pathfinding (0, 0) (0, 2) [(0, 1)] [] = Inr [(0, 1), (0, 2)]
   \<and> bfs_pathfinding (5, 5) (7, 5) [(5, 5), (5, 6), (6, 6), (6, 5)]
         [(0, 0), (19, 19), (0, 19), (19, 0), (15, 15)]
       = Inr [(6, 5), (7, 5)]
   \<and> bfs_pathfinding (5, 5) (7, 5) [(5, 5), (5, 6), (6, 6), (6, 5), (6, 4)]
         [(0, 0), (19, 19), (0, 19), (19, 0), (15, 15)]
       = Inr [(5, 4), (6, 4), (7, 4), (7, 5)]
   \<and> tick [KEYDOWN K_a]
        \<lparr>snake = \<lparr>length_snake = 5,
                   positions = [(5, 5), (5, 6), (6, 6), (6, 5), (6, 4)],
                   direction = UP, score = 4\<rparr>,
         obstacles = \<lparr>positions_obstacles = [(0, 0), (19, 19), (0, 19), (19, 0), (15, 15)],
                      num_obstacles = 5\<rparr>,
         food = \<lparr>position = (7, 5)\<rparr>,
         game_over = False, autopilot_on = False, autopilot_path = []\<rparr>
        (\<lambda>n. 0)
     = Some (Returned
        (\<lparr>snake = \<lparr>length_snake = 5,
                    positions = [(5, 5), (5, 6), (6, 6), (6, 5), (6, 4)],
                    direction = RIGHT, score = 4\<rparr>,
          obstacles = \<lparr>positions_obstacles = [(0, 0), (19, 19), (0, 19), (19, 0), (15, 15)],
                       num_obstacles = 5\<rparr>,
          food = \<lparr>position = (7, 5)\<rparr>,
          game_over = True, autopilot_on = True, autopilot_path = [(7, 5)]\<rparr>,
         \<lambda>n. 0))"
  by (simp add: tick_def handle_event_def update_def autopilot_plan_def autopilot_follow_def
        get_head_position_def turn_def move_def
        bfs_pathfinding_def bfs_loop_Cons bfs_loop_Nil bfs_visit_def
        UP_def DOWN_def LEFT_def RIGHT_def GRID_SIZE_def)

section \<open>Properties of the survival branch\<close>

text \<open>When exactly one of the four wrapped neighbour cells is free, the list of
  candidates is that one move, also when it is the reversal of the heading, and
  \<open>turn\<close> is called with it.\<close>

lemma consider_move_unsafe:
  assumes "((fst head + fst d) mod GRID_SIZE, (snd head + snd d) mod GRID_SIZE)
             \<in> set (positions s) \<union> set obs"
  shows "consider_move s obs head d possible_moves = possible_moves"
  using assms by (cases d) (auto simp: consider_move_def Let_def)

lemma consider_move_safe:
  assumes "((fst head + fst d) mod GRID_SIZE, (snd head + snd d) mod GRID_SIZE)
             \<notin> set (positions s) \<union> set obs"
    and "length possible_moves \<le> 1"
  shows "consider_move s obs head d possible_moves = possible_moves @ [d]"
  using assms by (cases d) (auto simp: consider_move_def Let_def)

lemma possible_moves_single:
  assumes "m \<in> {UP, DOWN, LEFT, RIGHT}"
    and "((fst head + fst m) mod GRID_SIZE, (snd head + snd m) mod GRID_SIZE)
           \<notin> set (positions s) \<union> set obs"
    and "\<forall>d \<in> {UP, DOWN, LEFT, RIGHT} - {m}.
           ((fst head + fst d) mod GRID_SIZE, (snd head + snd d) mod GRID_SIZE)
             \<in> set (positions s) \<union> set obs"
  shows "fold (consider_move s obs head) [UP, DOWN, LEFT, RIGHT] [] = [m]"
proof -
  have four: "UP \<noteq> DOWN" "UP \<noteq> LEFT" "UP \<noteq> RIGHT" "DOWN \<noteq> LEFT" "DOWN \<noteq> RIGHT"
    "LEFT \<noteq> RIGHT"
    by (simp_all add: UP_def DOWN_def LEFT_def RIGHT_def)
  have step: "consider_move s obs head d possible_moves =
      (if d = m then possible_moves @ [d] else possible_moves)"
    if "d \<in> {UP, DOWN, LEFT, RIGHT}" and "length possible_moves \<le> 1" for d possible_moves
  proof (cases "d = m")
    case True
    with assms(2) that(2) show ?thesis by (simp add: consider_move_safe)
  next
    case False
    with that(1) assms(3) have
      "((fst head + fst d) mod GRID_SIZE, (snd head + snd d) mod GRID_SIZE)
         \<in> set (positions s) \<union> set obs"
      by blast
    with False show ?thesis by (simp add: consider_move_unsafe)
  qed
  from assms(1) consider "m = UP" | "m = DOWN" | "m = LEFT" | "m = RIGHT" by auto
  then show ?thesis
    using four by cases (simp_all add: step)
qed

lemma safe_move_single_candidate:
  assumes "positions s = head # rest"
    and "fold (consider_move s obs head) [UP, DOWN, LEFT, RIGHT] [] = [m]"
  shows "safe_move s obs g = Inr (turn m s, g) \<or> safe_move s obs g = Inr (turn m s, \<lambda>n. g (Suc n))"
  using assms
  by (auto simp: safe_move_def get_head_position_def choice_def Let_def)

text \<open>C5: the only safe move is not always taken. After the moves to the left that
  brought the snake to \<open>[(0, 0), (1, 0)]\<close>, the key DOWN and the autopilot key arrive in one
  iteration. No path to the food exists, the only free neighbour is \<open>(0, 19)\<close> (UP,
  the reversal of the pending heading), the candidates are \<open>[UP]\<close>, and
  \<open>turn UP\<close> is refused because \<open>length > 1\<close>: the snake moves DOWN into the
  obstacle at \<open>(0, 1)\<close>.\<close>

theorem autopilot_single_safe_move_not_taken:
  "fold (consider_move
           \<lparr>length_snake = 2, positions = [(0, 0), (1, 0)], direction = DOWN, score = 1\<rparr>
           [(0, 1), (19, 0), (1, 1), (2, 0), (15, 15)] (0, 0))
        [UP, DOWN, LEFT, RIGHT] [] = [UP]
   \<and> tick [KEYDOWN K_DOWN, KEYDOWN K_a]
        \<lparr>snake = \<lparr>length_snake = 2, positions = [(0, 0), (1, 0)], direction = LEFT, score = 1\<rparr>,
         obstacles = \<lparr>positions_obstacles = [(0, 1), (19, 0), (1, 1), (2, 0), (15, 15)],
                      num_obstacles = 5\<rparr>,
         food = \<lparr>position = (7, 7)\<rparr>,
         game_over = False, autopilot_on = False, autopilot_path = []\<rparr>
        (\<lambda>n. 0)
     = Some (Returned
        (\<lparr>snake = \<lparr>length_snake = 2, positions = [(0, 1), (0, 0)], direction = DOWN, score = 1\<rparr>,
          obstacles = \<lparr>positions_obstacles = [(0, 1), (19, 0), (1, 1), (2, 0), (15, 15)],
                       num_obstacles = 5\<rparr>,
          food = \<lparr>position = (7, 7)\<rparr>,
          game_over = True, autopilot_on = True, autopilot_path = []\<rparr>,
         \<lambda>n. 0))"
  by (simp add: tick_def handle_event_def update_def autopilot_plan_def autopilot_follow_def
        safe_move_def get_head_position_def consider_move_def choice_def turn_def move_def
        bfs_pathfinding_def bfs_loop_Cons bfs_loop_Nil bfs_visit_def
        UP_def DOWN_def LEFT_def RIGHT_def GRID_SIZE_def)

end
